theory Spec2Isabelle
  imports Complex_Main
begin

section \<open>Data model (src/src/types/index.ts)\<close>

text \<open>
  JavaScript numbers that carry signal values (coordinates, probabilities, decibels) are
  read as real numbers: every arithmetic operation of the source is the exact operation on
  \<^typ>\<open>real\<close>, \<open>Math.sqrt\<close> is \<^const>\<open>sqrt\<close>, \<open>Math.exp\<close> is \<^const>\<open>exp\<close>,
  \<open>Math.pow\<close> is \<^const>\<open>powr\<close>. Rounding of IEEE doubles is not part of the model, and
  neither is \<open>NaN\<close>. Numbers that count things (bits, symbols, indices) are \<^typ>\<open>nat\<close>
  or \<^typ>\<open>int\<close>.
\<close>

record Complex_t =
  I :: real
  Q :: real

record ConstellationPoint = Complex_t +
  bits :: string

datatype ModulationScheme = BPSK | QPSK | PSK8 | QAM16 | QAM64

fun BITS_PER_SYMBOL :: "ModulationScheme \<Rightarrow> nat" where
  "BITS_PER_SYMBOL BPSK = 1"
| "BITS_PER_SYMBOL QPSK = 2"
| "BITS_PER_SYMBOL PSK8 = 3"
| "BITS_PER_SYMBOL QAM16 = 4"
| "BITS_PER_SYMBOL QAM64 = 6"

text \<open>
  Every \<open>throw new Error(...)\<close> of the source is a value. The constructor is the class the
  specification files the failure under, the argument is the message of the source.
  \<open>TypeError\<close> is what JavaScript itself raises on \<open>constellation[0].bits\<close> when the
  constellation is empty.
\<close>

datatype error = InvalidArgument string | InvalidState string | TypeError

text \<open>A number that may be \<open>Infinity\<close>.\<close>

datatype number = Finite real | Infinity

section \<open>Complex arithmetic (math.ts, second part of src/src/utils/modulation.ts)\<close>

definition complexMagnitudeSquared :: "'a Complex_t_scheme \<Rightarrow> real" where
  "complexMagnitudeSquared z = I z * I z + Q z * Q z"

definition complexFromPolar :: "real \<Rightarrow> real \<Rightarrow> Complex_t" where
  "complexFromPolar r theta = \<lparr>I = r * cos theta, Q = r * sin theta\<rparr>"

definition complexAdd :: "'a Complex_t_scheme \<Rightarrow> 'b Complex_t_scheme \<Rightarrow> Complex_t" where
  "complexAdd a b = \<lparr>I = I a + I b, Q = Q a + Q b\<rparr>"

definition complexDistanceSquared :: "'a Complex_t_scheme \<Rightarrow> 'b Complex_t_scheme \<Rightarrow> real" where
  "complexDistanceSquared a b =
     (let dI = I a - I b; dQ = Q a - Q b in dI * dI + dQ * dQ)"

section \<open>Constellation generation (src/src/utils/modulation.ts)\<close>

definition generateBPSK :: "ConstellationPoint list" where
  "generateBPSK =
     [\<lparr>I = 1, Q = 0, bits = ''0''\<rparr>,
      \<lparr>I = -1, Q = 0, bits = ''1''\<rparr>]"

definition generateQPSK :: "ConstellationPoint list" where
  "generateQPSK =
     (let scale = 1 / sqrt 2 in
      [\<lparr>I = scale, Q = scale, bits = ''00''\<rparr>,
       \<lparr>I = - scale, Q = scale, bits = ''01''\<rparr>,
       \<lparr>I = - scale, Q = - scale, bits = ''11''\<rparr>,
       \<lparr>I = scale, Q = - scale, bits = ''10''\<rparr>])"

definition grayCode3 :: "string list" where
  "grayCode3 = [''000'', ''001'', ''011'', ''010'', ''110'', ''111'', ''101'', ''100'']"

definition gray2 :: "string list" where
  "gray2 = [''00'', ''01'', ''11'', ''10'']"

text \<open>The loop \<open>for (let i = 0; i < 8; i++) points.push(...)\<close> is a map over the indices.\<close>

definition generate8PSK :: "ConstellationPoint list" where
  "generate8PSK =
     map (\<lambda>i. let angle = (real i * pi) / 4;
                  point = complexFromPolar 1 angle
              in \<lparr>I = I point, Q = Q point, bits = grayCode3 ! i\<rparr>) [0..<8]"

definition coords16 :: "real list" where
  "coords16 = [-3, -1, 1, 3]"

definition coords64 :: "real list" where
  "coords64 = [-7, -5, -3, -1, 1, 3, 5, 7]"

text \<open>The nested loops push in the order outer \<open>qi\<close>, inner \<open>ii\<close>.\<close>

definition generate16QAM :: "ConstellationPoint list" where
  "generate16QAM =
     (let scale = 1 / sqrt 10 in
      concat (map (\<lambda>qi. map (\<lambda>ii.
        \<lparr>I = coords16 ! ii * scale, Q = coords16 ! qi * scale,
         bits = gray2 ! ii @ gray2 ! qi\<rparr>) [0..<4]) [0..<4]))"

definition generate64QAM :: "ConstellationPoint list" where
  "generate64QAM =
     (let scale = 1 / sqrt 42 in
      concat (map (\<lambda>qi. map (\<lambda>ii.
        \<lparr>I = coords64 ! ii * scale, Q = coords64 ! qi * scale,
         bits = grayCode3 ! ii @ grayCode3 ! qi\<rparr>) [0..<8]) [0..<8]))"

text \<open>
  The \<open>default\<close> branch of the source's \<open>switch\<close> (unknown scheme) has no value of
  \<^typ>\<open>ModulationScheme\<close> that reaches it.
\<close>

fun generateConstellation :: "ModulationScheme \<Rightarrow> ConstellationPoint list" where
  "generateConstellation BPSK = generateBPSK"
| "generateConstellation QPSK = generateQPSK"
| "generateConstellation PSK8 = generate8PSK"
| "generateConstellation QAM16 = generate16QAM"
| "generateConstellation QAM64 = generate64QAM"

section \<open>Modulation (src/src/utils/modulation.ts)\<close>

text \<open>
  A bit array is a \<open>number[]\<close>; its elements are natural numbers here. \<open>join('')\<close>
  writes each element in decimal and concatenates, so a bit \<open>0\<close> or \<open>1\<close> becomes one
  character and any other number becomes other characters.
\<close>

function numberToString :: "nat \<Rightarrow> string" where
  "numberToString n =
     (if n < 10 then [''0123456789'' ! n]
      else numberToString (n div 10) @ [''0123456789'' ! (n mod 10)])"
  by pat_completeness auto
termination
  by (relation "measure id") auto

definition join :: "nat list \<Rightarrow> string" where
  "join xs = concat (map numberToString xs)"

text \<open>\<open>xs.slice(i, j)\<close> for \<open>0 \<le> i\<close>: the elements from index \<open>i\<close> up to, not including, \<open>j\<close>.\<close>

definition slice :: "'a list \<Rightarrow> nat \<Rightarrow> nat \<Rightarrow> 'a list" where
  "slice xs i j = take (j - i) (drop i xs)"

text \<open>The lookup table: one \<open>bitMap.set(point.bits, point)\<close> per point, later entries win.\<close>

definition bitMapOf :: "ConstellationPoint list \<Rightarrow> (string \<rightharpoonup> ConstellationPoint)" where
  "bitMapOf constellation = foldl (\<lambda>m point. m(bits point \<mapsto> point)) Map.empty constellation"

text \<open>
  The loop \<open>for (let i = 0; i + bitsPerSymbol <= bits.length; i += bitsPerSymbol)\<close>. With
  \<open>bitsPerSymbol = 0\<close> it does not advance, so it is a partial function: \<open>None\<close> is
  "does not return".
\<close>

partial_function (option) modulateLoop ::
  "nat \<Rightarrow> (string \<rightharpoonup> ConstellationPoint) \<Rightarrow> nat list \<Rightarrow> nat \<Rightarrow> Complex_t list
     \<Rightarrow> (error + Complex_t list) option" where
  "modulateLoop bitsPerSymbol bitMap bs i symbols =
     (if i + bitsPerSymbol \<le> length bs then
        (let bitGroup = join (slice bs i (i + bitsPerSymbol)) in
         case bitMap bitGroup of
           None \<Rightarrow> Some (Inl (InvalidState (''Invalid bit pattern: '' @ bitGroup)))
         | Some point \<Rightarrow>
             modulateLoop bitsPerSymbol bitMap bs (i + bitsPerSymbol)
               (symbols @ [\<lparr>I = I point, Q = Q point\<rparr>]))
      else Some (Inr symbols))"

definition modulateBits ::
  "nat list \<Rightarrow> ConstellationPoint list \<Rightarrow> (error + Complex_t list) option" where
  "modulateBits bs constellation =
     (case constellation of
        [] \<Rightarrow> Some (Inl TypeError)
      | c0 # _ \<Rightarrow> modulateLoop (length (bits c0)) (bitMapOf constellation) bs 0 [])"

section \<open>Demodulation (src/src/utils/modulation.ts)\<close>

text \<open>
  The scan of \<open>symbolToBits\<close> and of \<open>demodulate\<close>: the state is the running minimum
  (initially \<open>Infinity\<close>) and the point, or label, that reached it; a point replaces the
  current one only when it is strictly closer.
\<close>

fun lessThan_number :: "real \<Rightarrow> number \<Rightarrow> bool" where
  "lessThan_number d Infinity = True"
| "lessThan_number d (Finite m) = (d < m)"

definition symbolToBits :: "'a Complex_t_scheme \<Rightarrow> ConstellationPoint list \<Rightarrow> error + string" where
  "symbolToBits symbol constellation =
     (case constellation of
        [] \<Rightarrow> Inl TypeError
      | c0 # _ \<Rightarrow>
          Inr (bits (snd (foldl (\<lambda>(minDist, closestPoint) point.
                 let dist = complexDistanceSquared symbol point in
                 if lessThan_number dist minDist then (Finite dist, point)
                 else (minDist, closestPoint))
               (Infinity, c0) constellation))))"

definition decide :: "ConstellationPoint list \<Rightarrow> string \<Rightarrow> 'a Complex_t_scheme \<Rightarrow> string" where
  "decide constellation bits0 symbol =
     snd (foldl (\<lambda>(minDistSquared, decidedBits) point.
            let distSquared = complexDistanceSquared symbol point in
            if lessThan_number distSquared minDistSquared then (Finite distSquared, bits point)
            else (minDistSquared, decidedBits))
          (Infinity, bits0) constellation)"

text \<open>
  \<open>received.map(...)\<close> runs its callback once per received symbol, so
  \<open>constellation[0].bits\<close> fails only when there is a symbol to decide.
\<close>

definition demodulate :: "'a Complex_t_scheme list \<Rightarrow> ConstellationPoint list \<Rightarrow> error + string list" where
  "demodulate received constellation =
     (if received = [] then Inr []
      else case constellation of
        [] \<Rightarrow> Inl TypeError
      | c0 # _ \<Rightarrow> Inr (map (decide constellation (bits c0)) received))"

section \<open>Bit error counting (src/src/utils/modulation.ts)\<close>

text \<open>
  Both functions check the lengths, then walk the index \<open>i\<close> from \<open>0\<close> to
  \<open>transmitted.length\<close> and count the positions where the elements differ.
\<close>

definition countBitErrors :: "nat list \<Rightarrow> nat list \<Rightarrow> error + nat" where
  "countBitErrors transmitted received =
     (if length transmitted \<noteq> length received
      then Inl (InvalidArgument ''Bit arrays must have the same length'')
      else Inr (foldl (\<lambda>errors i. if transmitted ! i \<noteq> received ! i then errors + 1 else errors)
                  0 [0..<length transmitted]))"

definition countBitErrorsFromStrings :: "string \<Rightarrow> string \<Rightarrow> error + nat" where
  "countBitErrorsFromStrings transmitted received =
     (if length transmitted \<noteq> length received
      then Inl (InvalidArgument ''Bit strings must have the same length'')
      else Inr (foldl (\<lambda>errors i. if transmitted ! i \<noteq> received ! i then errors + 1 else errors)
                  0 [0..<length transmitted]))"

section \<open>The Q-function and decibels (math.ts, second part of src/src/utils/modulation.ts)\<close>

function qFunction :: "real \<Rightarrow> real" where
  "qFunction x =
     (if x < 0 then 1 - qFunction (- x)
      else if x > 8 then 0
      else
        let t = 1 / (1 + 0.2316419 * x);
            b1 = 0.319381530;
            b2 = -0.356563782;
            b3 = 1.781477937;
            b4 = -1.821255978;
            b5 = 1.330274429;
            pdf = 0.3989422804014327 * exp (-0.5 * x * x);
            polynomial = t * (b1 + t * (b2 + t * (b3 + t * (b4 + t * b5))))
        in pdf * polynomial)"
  by pat_completeness auto
termination
  by (relation "measure (\<lambda>x. if x < 0 then 1 else 0)") auto

declare qFunction.simps [simp del]

definition dbToLinear :: "real \<Rightarrow> real" where
  "dbToLinear db = 10 powr (db / 10)"

section \<open>Theoretical bit error rate (theory.ts, src/unnamed/part_004)\<close>

definition berBPSK :: "real \<Rightarrow> real" where
  "berBPSK ebN0 = qFunction (sqrt (2 * ebN0))"

definition berQPSK :: "real \<Rightarrow> real" where
  "berQPSK ebN0 = qFunction (sqrt (2 * ebN0))"

definition ber8PSK :: "real \<Rightarrow> real" where
  "ber8PSK ebN0 =
     (let M = 8; k = 3;
          sinPiOverM = sin (pi / M);
          arg = sqrt (2 * k * ebN0) * sinPiOverM
      in (2 / k) * qFunction arg)"

definition ber16QAM :: "real \<Rightarrow> real" where
  "ber16QAM ebN0 =
     (let M = 16; k = 4; sqrtM = 4;
          factor = (4 / k) * (1 - 1 / sqrtM);
          arg = sqrt ((3 * k * ebN0) / (M - 1))
      in factor * qFunction arg)"

definition ber64QAM :: "real \<Rightarrow> real" where
  "ber64QAM ebN0 =
     (let M = 64; k = 6; sqrtM = 8;
          factor = (4 / k) * (1 - 1 / sqrtM);
          arg = sqrt ((3 * k * ebN0) / (M - 1))
      in factor * qFunction arg)"

definition theoreticalBER :: "ModulationScheme \<Rightarrow> real \<Rightarrow> real" where
  "theoreticalBER scheme ebN0Db =
     (let ebN0 = dbToLinear ebN0Db in
      case scheme of
        BPSK \<Rightarrow> berBPSK ebN0
      | QPSK \<Rightarrow> berQPSK ebN0
      | PSK8 \<Rightarrow> ber8PSK ebN0
      | QAM16 \<Rightarrow> ber16QAM ebN0
      | QAM64 \<Rightarrow> ber64QAM ebN0)"

text \<open>
  The binary search of \<open>requiredEbN0ForBER\<close>: the loop \<open>while (high - low > 0.01)\<close>
  halves the interval, keeping the upper half when the error rate at the midpoint is
  still above the target. The width halves at each turn, which is the termination
  argument.
\<close>

function searchLoop :: "ModulationScheme \<Rightarrow> real \<Rightarrow> real \<Rightarrow> real \<Rightarrow> real" where
  "searchLoop scheme targetBER low high =
     (if high - low > 0.01 then
        (let mid = (low + high) / 2;
             ber = theoreticalBER scheme mid
         in if ber > targetBER then searchLoop scheme targetBER mid high
            else searchLoop scheme targetBER low mid)
      else (low + high) / 2)"
  by pat_completeness auto
termination
proof (relation "measure (\<lambda>(scheme, targetBER, low, high). nat \<lceil>(high - low) * 100\<rceil>)")
  have ceiling_half_less: "nat \<lceil>x / 2\<rceil> < nat \<lceil>x\<rceil>" if "1 < x" for x :: real
  proof -
    have "1 < \<lceil>x\<rceil>" using that by (simp add: less_ceiling_iff)
    then have n2: "2 \<le> \<lceil>x\<rceil>" by simp
    define c :: real where "c = of_int \<lceil>x\<rceil>"
    have "x \<le> c" unfolding c_def by (rule le_of_int_ceiling)
    moreover have "2 \<le> c" unfolding c_def using n2 by linarith
    ultimately have "x / 2 \<le> c - 1" by linarith
    then have "x / 2 \<le> of_int (\<lceil>x\<rceil> - 1)" by (simp add: c_def)
    then have "\<lceil>x / 2\<rceil> \<le> \<lceil>x\<rceil> - 1" by (simp only: ceiling_le_iff)
    with n2 show ?thesis by linarith
  qed
  {
    fix scheme :: ModulationScheme and targetBER low high mid ber :: real
    assume w: "1 / 10\<^sup>2 < high - low" and m: "mid = (low + high) / 2"
    have "1 < (high - low) * 100" using w by (simp add: power2_eq_square)
    from ceiling_half_less [OF this]
    have "nat \<lceil>(high - mid) * 100\<rceil> < nat \<lceil>(high - low) * 100\<rceil>"
      and "nat \<lceil>(mid - low) * 100\<rceil> < nat \<lceil>(high - low) * 100\<rceil>"
      by (simp_all add: m field_simps)
    then show "((scheme, targetBER, mid, high), scheme, targetBER, low, high)
         \<in> measure (\<lambda>(scheme, targetBER, low, high). nat \<lceil>(high - low) * 100\<rceil>)"
      and "((scheme, targetBER, low, mid), scheme, targetBER, low, high)
         \<in> measure (\<lambda>(scheme, targetBER, low, high). nat \<lceil>(high - low) * 100\<rceil>)"
      by simp_all
  }
qed simp

declare searchLoop.simps [simp del]

definition requiredEbN0ForBER :: "ModulationScheme \<Rightarrow> real \<Rightarrow> number" where
  "requiredEbN0ForBER scheme targetBER =
     (let low = -10; high = 30 in
      if theoreticalBER scheme high > targetBER then Infinity
      else if theoreticalBER scheme low < targetBER then Finite low
      else Finite (searchLoop scheme targetBER low high))"

section \<open>Random numbers (math.ts, second part of src/src/utils/modulation.ts)\<close>

text \<open>
  \<open>Math.random()\<close> reads the next element of a sequence of draws; the state that is
  passed along is the index of the next draw.
\<close>

type_synonym draws = "nat \<Rightarrow> real"

definition Math_random :: "draws \<Rightarrow> nat \<Rightarrow> real \<times> nat" where
  "Math_random rnd pos = (rnd pos, pos + 1)"

definition gaussianRandomPair :: "draws \<Rightarrow> real \<Rightarrow> real \<Rightarrow> nat \<Rightarrow> (real \<times> real) \<times> nat" where
  "gaussianRandomPair rnd mean stdDev pos =
     (let (r1, pos1) = Math_random rnd pos;
          u1 = max r1 (1 / 10 ^ 10);
          (u2, pos2) = Math_random rnd pos1;
          magnitude = sqrt (-2 * ln u1);
          angle = 2 * pi * u2;
          z1 = magnitude * cos angle;
          z2 = magnitude * sin angle
      in ((mean + stdDev * z1, mean + stdDev * z2), pos2))"

definition complexGaussianRandom :: "draws \<Rightarrow> real \<Rightarrow> nat \<Rightarrow> Complex_t \<times> nat" where
  "complexGaussianRandom rnd variance pos =
     (let stdDev = sqrt (variance / 2);
          ((i, q), pos') = gaussianRandomPair rnd 0 stdDev pos
      in (\<lparr>I = i, Q = q\<rparr>, pos'))"

text \<open>The loop \<open>for (let i = 0; i < count; i++)\<close> makes one draw per bit.\<close>

definition generateRandomBits :: "draws \<Rightarrow> int \<Rightarrow> nat \<Rightarrow> nat list \<times> nat" where
  "generateRandomBits rnd count pos =
     (map (\<lambda>i. if rnd (pos + i) < 0.5 then 0 else 1) [0..<nat count], pos + nat count)"

section \<open>Channel model (channel.ts, src/unnamed/part_003)\<close>

definition calculateNoiseVariance :: "real \<Rightarrow> ModulationScheme \<Rightarrow> real" where
  "calculateNoiseVariance ebN0Db scheme =
     (let bitsPerSymbol = BITS_PER_SYMBOL scheme;
          ebN0Linear = dbToLinear ebN0Db;
          esN0Linear = ebN0Linear * real bitsPerSymbol;
          noiseVariance = 1 / esN0Linear
      in noiseVariance)"

text \<open>\<open>symbols.map(...)\<close> with a callback that draws: the draws are taken symbol by symbol.\<close>

fun addNoise :: "draws \<Rightarrow> real \<Rightarrow> Complex_t list \<Rightarrow> nat \<Rightarrow> Complex_t list \<times> nat" where
  "addNoise rnd noiseVariance [] pos = ([], pos)"
| "addNoise rnd noiseVariance (symbol # symbols) pos =
     (let (noise, pos1) = complexGaussianRandom rnd noiseVariance pos;
          (rest, pos2) = addNoise rnd noiseVariance symbols pos1
      in (complexAdd symbol noise # rest, pos2))"

definition addAWGN ::
  "draws \<Rightarrow> Complex_t list \<Rightarrow> real \<Rightarrow> ModulationScheme \<Rightarrow> nat \<Rightarrow> Complex_t list \<times> nat" where
  "addAWGN rnd symbols ebN0Db scheme pos =
     (let noiseVariance = calculateNoiseVariance ebN0Db scheme
      in addNoise rnd noiseVariance symbols pos)"

section \<open>SNR sweep (sweep.ts, src/unnamed/part_005)\<close>

text \<open>
  The inner loop of \<open>simulateBerAtSnr\<close>: for each transmitted symbol, the label of the
  nearest constellation point is compared with the decoded label. Reading
  \<open>decodedBitStrings[i]\<close> past the end gives \<open>undefined\<close>, whose \<open>length\<close> is a
  \<open>TypeError\<close>.
\<close>

definition countBatchErrors ::
  "ConstellationPoint list \<Rightarrow> Complex_t list \<Rightarrow> string list \<Rightarrow> nat \<Rightarrow> error + nat" where
  "countBatchErrors constellation txSymbols decodedBitStrings errorCount =
     foldl (\<lambda>acc i. case acc of
               Inl e \<Rightarrow> Inl e
             | Inr errorCount \<Rightarrow>
                 (case symbolToBits (txSymbols ! i) constellation of
                    Inl e \<Rightarrow> Inl e
                  | Inr txBitString \<Rightarrow>
                      if i < length decodedBitStrings then
                        (case countBitErrorsFromStrings txBitString (decodedBitStrings ! i) of
                           Inl e \<Rightarrow> Inl e
                         | Inr n \<Rightarrow> Inr (errorCount + n))
                      else Inl TypeError))
       (Inr errorCount) [0..<length txSymbols]"

text \<open>
  The loop \<open>while (bitCount < bitsTarget)\<close>. With a batch size that is not positive the
  bit count does not grow, so the loop is a partial function.
\<close>

partial_function (option) sweepLoop ::
  "draws \<Rightarrow> ModulationScheme \<Rightarrow> real \<Rightarrow> int \<Rightarrow> int \<Rightarrow> nat \<Rightarrow> ConstellationPoint list
     \<Rightarrow> int \<Rightarrow> nat \<Rightarrow> nat \<Rightarrow> (error + int \<times> nat \<times> nat) option" where
  "sweepLoop rnd scheme snrDb bitsTarget batchSymbols bitsPerSymbol constellation
       bitCount errorCount pos =
     (if bitCount < bitsTarget then
        (let remainingBits = bitsTarget - bitCount;
             symbolsThisBatch =
               min batchSymbols \<lceil>real_of_int remainingBits / real bitsPerSymbol\<rceil>;
             bitsThisBatch = symbolsThisBatch * int bitsPerSymbol;
             (bs, pos1) = generateRandomBits rnd bitsThisBatch pos
         in case modulateBits bs constellation of
              None \<Rightarrow> None
            | Some (Inl e) \<Rightarrow> Some (Inl e)
            | Some (Inr txSymbols) \<Rightarrow>
                (let (rxSymbols, pos2) = addAWGN rnd txSymbols snrDb scheme pos1 in
                 case demodulate rxSymbols constellation of
                   Inl e \<Rightarrow> Some (Inl e)
                 | Inr decodedBitStrings \<Rightarrow>
                     (case countBatchErrors constellation txSymbols decodedBitStrings errorCount of
                        Inl e \<Rightarrow> Some (Inl e)
                      | Inr errorCount' \<Rightarrow>
                          sweepLoop rnd scheme snrDb bitsTarget batchSymbols bitsPerSymbol
                            constellation (bitCount + bitsThisBatch) errorCount' pos2)))
      else Some (Inr (bitCount, errorCount, pos)))"

record SweepPoint =
  snrDb :: real
  simulatedBER :: real
  theoreticalBER' :: real
  bitCount :: int
  errorCount :: nat

text \<open>
  The result is paired with the index of the next draw. The parameters and counters carry
  a \<open>0\<close> where their names are the names of the fields of the result.
\<close>

definition simulateBerAtSnr ::
  "draws \<Rightarrow> ModulationScheme \<Rightarrow> real \<Rightarrow> int \<Rightarrow> int \<Rightarrow> nat \<Rightarrow> (error + SweepPoint \<times> nat) option" where
  "simulateBerAtSnr rnd scheme snrDb0 bitsTarget batchSymbols pos =
     (let bitsPerSymbol = BITS_PER_SYMBOL scheme;
          constellation = generateConstellation scheme
      in case sweepLoop rnd scheme snrDb0 bitsTarget batchSymbols bitsPerSymbol constellation
                0 0 pos of
           None \<Rightarrow> None
         | Some (Inl e) \<Rightarrow> Some (Inl e)
         | Some (Inr (bitCount0, errorCount0, pos')) \<Rightarrow>
             Some (Inr (\<lparr>snrDb = snrDb0,
                          simulatedBER =
                            (if bitCount0 > 0 then real errorCount0 / real_of_int bitCount0 else 0),
                          theoreticalBER' = theoreticalBER scheme snrDb0,
                          bitCount = bitCount0,
                          errorCount = errorCount0\<rparr>, pos')))"

section \<open>Derived notions used in the properties\<close>

text \<open>The bit labels of each constellation, in generation order, without the coordinates.\<close>

definition labels :: "ModulationScheme \<Rightarrow> string list" where
  "labels s = (case s of
      BPSK \<Rightarrow> [''0'', ''1'']
    | QPSK \<Rightarrow> [''00'', ''01'', ''11'', ''10'']
    | PSK8 \<Rightarrow> map (\<lambda>i. grayCode3 ! i) [0..<8]
    | QAM16 \<Rightarrow> concat (map (\<lambda>qi. map (\<lambda>ii. gray2 ! ii @ gray2 ! qi) [0..<4]) [0..<4])
    | QAM64 \<Rightarrow>
        concat (map (\<lambda>qi. map (\<lambda>ii. grayCode3 ! ii @ grayCode3 ! qi) [0..<8]) [0..<8]))"

text \<open>The mean of \<open>complexMagnitudeSquared\<close> over the points of a constellation.\<close>

definition meanSquaredMagnitude :: "ConstellationPoint list \<Rightarrow> real" where
  "meanSquaredMagnitude cs = (\<Sum>p\<leftarrow>cs. complexMagnitudeSquared p) / real (length cs)"

text \<open>
  One step of the nearest-point scan of \<open>demodulate\<close>, and the invariant of the scan
  while it looks for the label \<open>l\<close>: the running minimum is never negative, and once it
  is 0 the decided label is \<open>l\<close>.
\<close>

definition scanStep :: "'a Complex_t_scheme \<Rightarrow> number \<times> string \<Rightarrow> ConstellationPoint \<Rightarrow> number \<times> string" where
  "scanStep symbol = (\<lambda>(minDistSquared, decidedBits) point.
            let distSquared = complexDistanceSquared symbol point in
            if lessThan_number distSquared minDistSquared then (Finite distSquared, bits point)
            else (minDistSquared, decidedBits))"

fun scanInv :: "string \<Rightarrow> number \<times> string \<Rightarrow> bool" where
  "scanInv l (Infinity, d) = True"
| "scanInv l (Finite v, d) = (0 \<le> v \<and> (v = 0 \<longrightarrow> d = l))"

text \<open>
  The polynomial factor of \<open>qFunction\<close>, in Horner form and with the five coefficients
  of the source, as a function of \<open>t\<close>.
\<close>

definition asPoly :: "real \<Rightarrow> real" where
  "asPoly t = t * (0.319381530 + t * (-0.356563782 + t * (1.781477937 + t * (-1.821255978 + t * 1.330274429))))"

text \<open>The derivative of the polynomial factor.\<close>

definition asPoly' :: "real \<Rightarrow> real" where
  "asPoly' t = 0.319381530 + 2 * (-0.356563782) * t + 3 * 1.781477937 * t^2
     + 4 * (-1.821255978) * t^3 + 5 * 1.330274429 * t^4"

text \<open>
  The sweep as the specification words it: a batch is random bits, modulated, sent through
  the channel, demodulated and compared (\<open>runBatch\<close> counts the bit errors of one batch
  of \<open>n\<close> symbols and returns the index of the next draw); batches of at most \<open>batch\<close>
  symbols are run until no symbol is left (\<open>sweepBySymbols\<close>, which counts symbols where
  the source counts bits).
\<close>

definition runBatch ::
  "draws \<Rightarrow> ModulationScheme \<Rightarrow> real \<Rightarrow> nat \<Rightarrow> nat \<Rightarrow> (error + nat \<times> nat) option" where
  "runBatch rnd scheme snr n pos =
     (let cs = generateConstellation scheme;
          (bs, pos1) = generateRandomBits rnd (int n * int (BITS_PER_SYMBOL scheme)) pos
      in case modulateBits bs cs of
           None \<Rightarrow> None
         | Some (Inl e) \<Rightarrow> Some (Inl e)
         | Some (Inr tx) \<Rightarrow>
             (let (rx, pos2) = addAWGN rnd tx snr scheme pos1 in
              case demodulate rx cs of
                Inl e \<Rightarrow> Some (Inl e)
              | Inr ds \<Rightarrow>
                  (case countBatchErrors cs tx ds 0 of
                     Inl e \<Rightarrow> Some (Inl e)
                   | Inr m \<Rightarrow> Some (Inr (m, pos2)))))"

function sweepBySymbols ::
  "draws \<Rightarrow> ModulationScheme \<Rightarrow> real \<Rightarrow> nat \<Rightarrow> nat \<Rightarrow> nat \<Rightarrow> (error + nat \<times> nat) option" where
  "sweepBySymbols rnd scheme snr batch symbolsLeft pos =
     (if symbolsLeft = 0 \<or> batch = 0 then Some (Inr (0, pos))
      else case runBatch rnd scheme snr (min batch symbolsLeft) pos of
             None \<Rightarrow> None
           | Some (Inl e) \<Rightarrow> Some (Inl e)
           | Some (Inr (m, pos')) \<Rightarrow>
               (case sweepBySymbols rnd scheme snr batch (symbolsLeft - min batch symbolsLeft) pos' of
                  None \<Rightarrow> None
                | Some (Inl e) \<Rightarrow> Some (Inl e)
                | Some (Inr (e, p)) \<Rightarrow> Some (Inr (m + e, p))))"
  by pat_completeness auto
termination
  by (relation "measure (\<lambda>(rnd, scheme, snr, batch, symbolsLeft, pos). symbolsLeft)") auto

declare sweepBySymbols.simps [simp del]

section \<open>Properties of the generated constellations\<close>

lemma upt8: "[0..<8] = [0, 1, 2, 3, 4, 5, 6, 7]"
  by code_simp

lemma upt4: "[0..<4] = [0, 1, 2, 3]"
  by code_simp

lemma map_bits_generateConstellation: "map bits (generateConstellation s) = labels s"
  by (cases s)
     (simp_all add: labels_def generateBPSK_def generateQPSK_def generate8PSK_def
        generate16QAM_def generate64QAM_def Let_def map_concat comp_def)

lemma labels_length: "length (labels s) = 2 ^ BITS_PER_SYMBOL s"
  by (cases s; hypsubst; code_simp)

lemma labels_distinct: "distinct (labels s)"
  by (cases s; hypsubst; code_simp)

lemma labels_wellformed:
  "\<forall>l \<in> set (labels s). length l = BITS_PER_SYMBOL s \<and> set l \<subseteq> {CHR ''0'', CHR ''1''}"
  by (cases s; hypsubst; code_simp)

lemma labels_cover:
  "\<forall>g \<in> set (List.n_lists (BITS_PER_SYMBOL s) [0, 1]). join g \<in> set (labels s)"
  by (cases s; hypsubst; code_simp)

lemma scaled_square: "0 \<le> c \<Longrightarrow> (a * (1 / sqrt c)) * (a * (1 / sqrt c)) = a * a / c"
  by (simp add: field_simps)

lemma meanSquaredMagnitude_generated: "meanSquaredMagnitude (generateConstellation s) = 1"
proof (cases s)
  case BPSK
  then show ?thesis
    by (simp add: meanSquaredMagnitude_def generateBPSK_def complexMagnitudeSquared_def)
next
  case QPSK
  then show ?thesis
    by (simp add: meanSquaredMagnitude_def generateQPSK_def complexMagnitudeSquared_def Let_def)
next
  case PSK8
  then show ?thesis
    by (simp add: meanSquaredMagnitude_def generate8PSK_def complexMagnitudeSquared_def
        Let_def upt8 complexFromPolar_def)
next
  case QAM16
  then show ?thesis
    by (simp add: meanSquaredMagnitude_def generate16QAM_def complexMagnitudeSquared_def
        Let_def upt4 coords16_def scaled_square)
next
  case QAM64
  then show ?thesis
    by (simp add: meanSquaredMagnitude_def generate64QAM_def complexMagnitudeSquared_def
        Let_def upt8 coords64_def scaled_square)
qed

lemma bitMapOf_dom_aux:
  "dom (foldl (\<lambda>m point. m(bits point \<mapsto> point)) m0 cs) = dom m0 \<union> bits ` set cs"
  by (induction cs arbitrary: m0) auto

lemma bitMapOf_dom: "dom (bitMapOf cs) = set (map bits cs)"
  by (simp add: bitMapOf_def bitMapOf_dom_aux)

lemma BITS_PER_SYMBOL_pos: "0 < BITS_PER_SYMBOL s"
  by (cases s) simp_all

lemma generated_label_props:
  "p \<in> set (generateConstellation s) \<Longrightarrow>
     length (bits p) = BITS_PER_SYMBOL s \<and> set (bits p) \<subseteq> {CHR ''0'', CHR ''1''}"
proof -
  assume "p \<in> set (generateConstellation s)"
  then have "bits p \<in> set (map bits (generateConstellation s))" by simp
  then have "bits p \<in> set (labels s)" by (simp only: map_bits_generateConstellation)
  with labels_wellformed [of s] show ?thesis by blast
qed

lemma generated_length: "length (generateConstellation s) = 2 ^ BITS_PER_SYMBOL s"
  using labels_length [of s] map_bits_generateConstellation [of s]
  by (metis length_map)

text \<open>
  Claim C1. For every modulation scheme, \<open>generateConstellation\<close> returns exactly
  \<open>2 ^ k\<close> points, where \<open>k\<close> is the scheme's number of bits per symbol; the bit label
  of every point is a string of length \<open>k\<close> over the characters 0 and 1; the labels are
  pairwise distinct; and the mean squared magnitude of the points is 1 (exactly, on real
  numbers).
\<close>

theorem generateConstellation_wellformed:
  "length (generateConstellation s) = 2 ^ BITS_PER_SYMBOL s
   \<and> (\<forall>p \<in> set (generateConstellation s).
        length (bits p) = BITS_PER_SYMBOL s \<and> set (bits p) \<subseteq> {CHR ''0'', CHR ''1''})
   \<and> distinct (map bits (generateConstellation s))
   \<and> meanSquaredMagnitude (generateConstellation s) = 1"
  using generated_length [of s] generated_label_props [of _ s] labels_distinct [of s]
    meanSquaredMagnitude_generated [of s]
  by (simp add: map_bits_generateConstellation)

theorem generateConstellation_wellformed_witness:
  "\<lparr>I = 1, Q = 0, bits = ''0''\<rparr> \<in> set (generateConstellation BPSK)
   \<and> length (generateConstellation BPSK) = 2 ^ BITS_PER_SYMBOL BPSK
   \<and> length (bits \<lparr>I = 1, Q = 0, bits = ''0''\<rparr>) = BITS_PER_SYMBOL BPSK
   \<and> distinct (map bits (generateConstellation BPSK))
   \<and> meanSquaredMagnitude (generateConstellation BPSK) = 1"
proof -
  have h: "\<lparr>I = 1, Q = 0, bits = ''0''\<rparr> \<in> set (generateConstellation BPSK)"
    by (simp add: generateBPSK_def)
  with generateConstellation_wellformed [of BPSK] show ?thesis by blast
qed

section \<open>Properties of modulation\<close>

lemma slice_props:
  "i + k \<le> length bs \<Longrightarrow> length (slice bs i (i + k)) = k \<and> set (slice bs i (i + k)) \<subseteq> set bs"
  by (auto simp: slice_def dest: in_set_takeD in_set_dropD)

lemma modulateLoop_stop:
  "\<not> i + k \<le> length bs \<Longrightarrow> modulateLoop k bitMap bs i acc = Some (Inr acc)"
  by (subst modulateLoop.simps) simp

lemma modulateLoop_step:
  "i + k \<le> length bs \<Longrightarrow> bitMap (join (slice bs i (i + k))) = Some point \<Longrightarrow>
   modulateLoop k bitMap bs i acc
     = modulateLoop k bitMap bs (i + k) (acc @ [\<lparr>I = I point, Q = Q point\<rparr>])"
  by (subst modulateLoop.simps) (simp add: Let_def)

lemma modulateLoop_fail:
  "i + k \<le> length bs \<Longrightarrow> bitMap (join (slice bs i (i + k))) = None \<Longrightarrow>
   modulateLoop k bitMap bs i acc
     = Some (Inl (InvalidState (''Invalid bit pattern: '' @ join (slice bs i (i + k)))))"
  by (subst modulateLoop.simps) (simp add: Let_def)

lemma modulateLoop_total:
  assumes k: "0 < k"
    and cover: "\<forall>g. length g = k \<and> set g \<subseteq> {0, 1} \<longrightarrow> join g \<in> dom bitMap"
    and bs: "set bs \<subseteq> {0, 1}"
  shows "\<exists>syms. modulateLoop k bitMap bs i acc = Some (Inr syms)
            \<and> length syms = length acc + (length bs - i) div k"
proof (induction "length bs - i" arbitrary: i acc rule: less_induct)
  case less
  show ?case
  proof (cases "i + k \<le> length bs")
    case False
    then have "length bs - i < k" using k by arith
    then have "(length bs - i) div k = 0" by simp
    with modulateLoop_stop [OF False] show ?thesis by simp
  next
    case True
    let ?g = "slice bs i (i + k)"
    from slice_props [OF True] bs have "length ?g = k \<and> set ?g \<subseteq> {0, 1}" by blast
    with cover have "join ?g \<in> dom bitMap" by blast
    then obtain point where pt: "bitMap (join ?g) = Some point" by blast
    let ?acc = "acc @ [\<lparr>I = I point, Q = Q point\<rparr>]"
    define m where "m = length bs - (i + k)"
    have eq: "length bs - i = m + k" using True by (simp add: m_def)
    have "m < length bs - i" using k by (simp add: eq)
    from less [OF this [unfolded m_def], of ?acc]
    obtain syms where
      r: "modulateLoop k bitMap bs (i + k) ?acc = Some (Inr syms)"
      and l: "length syms = length ?acc + m div k"
      unfolding m_def by blast
    have "(length bs - i) div k = Suc (m div k)"
      using k by (simp add: eq)
    with l have "length syms = length acc + (length bs - i) div k" by simp
    with r modulateLoop_step [of i k bs bitMap point acc, OF True pt] show ?thesis by simp
  qed
qed

lemma modulateBits_total:
  assumes "set bs \<subseteq> {0, 1}"
  shows "\<exists>symbols. modulateBits bs (generateConstellation scheme) = Some (Inr symbols)
           \<and> length symbols = length bs div BITS_PER_SYMBOL scheme"
proof -
  let ?cs = "generateConstellation scheme" and ?k = "BITS_PER_SYMBOL scheme"
  have "length ?cs \<noteq> 0" by (simp add: generated_length)
  then obtain c0 rest where cs: "?cs = c0 # rest" by (cases ?cs) auto
  then have "c0 \<in> set ?cs" by simp
  then have k0: "length (bits c0) = ?k" using generated_label_props by blast
  have cover: "\<forall>g. length g = ?k \<and> set g \<subseteq> {0, 1} \<longrightarrow> join g \<in> dom (bitMapOf ?cs)"
  proof (intro allI impI)
    fix g :: "nat list"
    assume "length g = ?k \<and> set g \<subseteq> {0, 1}"
    then have "g \<in> set (List.n_lists ?k [0, 1])" by (simp add: set_n_lists)
    with labels_cover [of scheme] have "join g \<in> set (labels scheme)" by blast
    then show "join g \<in> dom (bitMapOf ?cs)"
      by (simp only: bitMapOf_dom map_bits_generateConstellation)
  qed
  from modulateLoop_total [OF BITS_PER_SYMBOL_pos cover assms, of 0 "[]"]
  obtain symbols where r: "modulateLoop ?k (bitMapOf ?cs) bs 0 [] = Some (Inr symbols)"
    and l: "length symbols = length bs div ?k" by auto
  have "modulateBits bs ?cs = modulateLoop (length (bits c0)) (bitMapOf ?cs) bs 0 []"
    unfolding modulateBits_def by (subst (1) cs) simp
  with r l k0 show ?thesis by simp
qed

lemma modulateLoop_groups:
  assumes k: "0 < k"
    and cover: "\<forall>g. length g = k \<and> set g \<subseteq> {0, 1} \<longrightarrow> join g \<in> dom bitMap"
    and bs: "set bs \<subseteq> {0, 1}"
  shows "\<exists>syms. modulateLoop k bitMap bs i acc = Some (Inr (acc @ syms))
            \<and> length syms = (length bs - i) div k
            \<and> (\<forall>j < length syms. \<exists>point.
                  bitMap (join (slice bs (i + j * k) (i + j * k + k))) = Some point
                  \<and> syms ! j = \<lparr>I = I point, Q = Q point\<rparr>)"
proof (induction "length bs - i" arbitrary: i acc rule: less_induct)
  case less
  show ?case
  proof (cases "i + k \<le> length bs")
    case False
    then have "length bs - i < k" using k by arith
    then have "(length bs - i) div k = 0" by simp
    with modulateLoop_stop [OF False, of bitMap acc] show ?thesis
      by (intro exI [of _ "[]"]) simp
  next
    case True
    let ?g = "slice bs i (i + k)"
    from slice_props [OF True] bs have "length ?g = k \<and> set ?g \<subseteq> {0, 1}" by blast
    with cover have "join ?g \<in> dom bitMap" by blast
    then obtain point where pt: "bitMap (join ?g) = Some point" by blast
    let ?p = "\<lparr>I = I point, Q = Q point\<rparr>"
    define m where "m = length bs - (i + k)"
    have eq: "length bs - i = m + k" using True by (simp add: m_def)
    have "m < length bs - i" using k by (simp add: eq)
    from less [OF this [unfolded m_def], of "acc @ [?p]"]
    obtain syms where
      r: "modulateLoop k bitMap bs (i + k) (acc @ [?p]) = Some (Inr ((acc @ [?p]) @ syms))"
      and l: "length syms = m div k"
      and g: "\<forall>j < length syms. \<exists>q.
                  bitMap (join (slice bs (i + k + j * k) (i + k + j * k + k))) = Some q
                  \<and> syms ! j = \<lparr>I = I q, Q = Q q\<rparr>"
      unfolding m_def by blast
    have d: "(length bs - i) div k = Suc (m div k)"
      using k by (simp add: eq)
    have r': "modulateLoop k bitMap bs i acc = Some (Inr (acc @ (?p # syms)))"
      using r modulateLoop_step [of i k bs bitMap point acc, OF True pt] by simp
    have g': "\<exists>q. bitMap (join (slice bs (i + j * k) (i + j * k + k))) = Some q
                  \<and> (?p # syms) ! j = \<lparr>I = I q, Q = Q q\<rparr>"
      if "j < length (?p # syms)" for j
    proof (cases j)
      case 0
      with pt show ?thesis by auto
    next
      case (Suc j')
      with that have "j' < length syms" by simp
      with g obtain q where "bitMap (join (slice bs (i + k + j' * k) (i + k + j' * k + k))) = Some q"
        "syms ! j' = \<lparr>I = I q, Q = Q q\<rparr>" by blast
      then show ?thesis by (auto simp: Suc add.assoc add.commute add.left_commute)
    qed
    from r' l d g' show ?thesis by (intro exI [of _ "?p # syms"]) simp
  qed
qed

lemma bitMapOf_Some_aux:
  assumes "\<forall>l p. m0 l = Some p \<longrightarrow> p \<in> S \<and> bits p = l" and "set cs \<subseteq> S"
    and "foldl (\<lambda>m point. m(bits point \<mapsto> point)) m0 cs l = Some p"
  shows "p \<in> S \<and> bits p = l"
  using assms
proof (induction cs arbitrary: m0)
  case Nil
  then show ?case by simp
next
  case (Cons a cs)
  have "\<forall>l p. (m0(bits a \<mapsto> a)) l = Some p \<longrightarrow> p \<in> S \<and> bits p = l"
    using Cons.prems(1,2) by auto
  moreover have "set cs \<subseteq> S" using Cons.prems(2) by simp
  moreover have "foldl (\<lambda>m point. m(bits point \<mapsto> point)) (m0(bits a \<mapsto> a)) cs l = Some p"
    using Cons.prems(3) by (simp only: foldl_Cons)
  ultimately show ?case by (rule Cons.IH)
qed

lemma bitMapOf_Some: "bitMapOf cs l = Some p \<Longrightarrow> p \<in> set cs \<and> bits p = l"
  unfolding bitMapOf_def by (rule bitMapOf_Some_aux [where ?m0.0 = Map.empty]) auto

lemma generated_cover:
  "\<forall>g. length g = BITS_PER_SYMBOL scheme \<and> set g \<subseteq> {0, 1}
       \<longrightarrow> join g \<in> dom (bitMapOf (generateConstellation scheme))"
proof (intro allI impI)
  fix g :: "nat list"
  assume "length g = BITS_PER_SYMBOL scheme \<and> set g \<subseteq> {0, 1}"
  then have "g \<in> set (List.n_lists (BITS_PER_SYMBOL scheme) [0, 1])" by (simp add: set_n_lists)
  with labels_cover [of scheme] have "join g \<in> set (labels scheme)" by blast
  then show "join g \<in> dom (bitMapOf (generateConstellation scheme))"
    by (simp only: bitMapOf_dom map_bits_generateConstellation)
qed

lemma modulateBits_generated_loop:
  "modulateBits bs (generateConstellation scheme)
     = modulateLoop (BITS_PER_SYMBOL scheme) (bitMapOf (generateConstellation scheme)) bs 0 []"
proof -
  let ?cs = "generateConstellation scheme"
  have "length ?cs \<noteq> 0" by (simp add: generated_length)
  then obtain c0 rest where cs: "?cs = c0 # rest" by (cases ?cs) auto
  then have "c0 \<in> set ?cs" by simp
  then have k0: "length (bits c0) = BITS_PER_SYMBOL scheme" using generated_label_props by blast
  have "modulateBits bs ?cs = modulateLoop (length (bits c0)) (bitMapOf ?cs) bs 0 []"
    unfolding modulateBits_def by (subst (1) cs) simp
  with k0 show ?thesis by simp
qed

lemma modulateBits_groups:
  assumes "set bs \<subseteq> {0, 1}"
  shows "\<exists>symbols. modulateBits bs (generateConstellation scheme) = Some (Inr symbols)
           \<and> length symbols = length bs div BITS_PER_SYMBOL scheme
           \<and> (\<forall>j < length bs div BITS_PER_SYMBOL scheme. \<exists>point.
                 bitMapOf (generateConstellation scheme)
                   (join (slice bs (j * BITS_PER_SYMBOL scheme)
                            (j * BITS_PER_SYMBOL scheme + BITS_PER_SYMBOL scheme))) = Some point
                 \<and> symbols ! j = \<lparr>I = I point, Q = Q point\<rparr>)"
proof -
  from modulateLoop_groups [OF BITS_PER_SYMBOL_pos generated_cover assms, of scheme 0 "[]"]
  obtain syms where
    r: "modulateLoop (BITS_PER_SYMBOL scheme) (bitMapOf (generateConstellation scheme)) bs 0 []
          = Some (Inr syms)"
    and l: "length syms = length bs div BITS_PER_SYMBOL scheme"
    and g: "\<forall>j < length syms. \<exists>point.
              bitMapOf (generateConstellation scheme)
                (join (slice bs (j * BITS_PER_SYMBOL scheme)
                         (j * BITS_PER_SYMBOL scheme + BITS_PER_SYMBOL scheme))) = Some point
              \<and> syms ! j = \<lparr>I = I point, Q = Q point\<rparr>"
    by auto
  from r have "modulateBits bs (generateConstellation scheme) = Some (Inr syms)"
    by (simp only: modulateBits_generated_loop)
  with l g [unfolded l] show ?thesis by blast
qed

lemma slice_take:
  "j \<le> n \<Longrightarrow> slice (take n xs) i j = slice xs i j"
  by (simp add: slice_def drop_take min_def)

text \<open>
  Claim C3. For every modulation scheme and every bit array whose elements are all 0 or 1,
  \<open>modulateBits\<close> on the generated constellation returns (it neither loops nor fails
  with the "Invalid bit pattern" error). The result has \<open>length bits div k\<close> symbols; the
  \<open>j\<close>-th symbol is the coordinates of the constellation point whose label is the
  \<open>j\<close>-th group of \<open>k\<close> bits, counted from the start of the array; and the result is
  the same when the trailing bits that do not fill a group are cut off beforehand.
\<close>

theorem modulateBits_generated:
  assumes "set bs \<subseteq> {0, 1}"
  shows "\<exists>symbols. modulateBits bs (generateConstellation scheme) = Some (Inr symbols)
           \<and> length symbols = length bs div BITS_PER_SYMBOL scheme
           \<and> (\<forall>j < length bs div BITS_PER_SYMBOL scheme.
                 \<exists>point \<in> set (generateConstellation scheme).
                   bits point = join (slice bs (j * BITS_PER_SYMBOL scheme)
                                        (j * BITS_PER_SYMBOL scheme + BITS_PER_SYMBOL scheme))
                   \<and> symbols ! j = \<lparr>I = I point, Q = Q point\<rparr>)
           \<and> modulateBits (take (BITS_PER_SYMBOL scheme * (length bs div BITS_PER_SYMBOL scheme)) bs)
                 (generateConstellation scheme) = Some (Inr symbols)"
proof -
  let ?cs = "generateConstellation scheme" and ?k = "BITS_PER_SYMBOL scheme"
  let ?N = "length bs div ?k"
  let ?bs' = "take (?k * ?N) bs"
  have kpos: "0 < ?k" by (rule BITS_PER_SYMBOL_pos)
  from modulateBits_groups [OF assms, of scheme]
  obtain symbols where r: "modulateBits bs ?cs = Some (Inr symbols)"
    and l: "length symbols = ?N"
    and g: "\<forall>j < ?N. \<exists>point. bitMapOf ?cs (join (slice bs (j * ?k) (j * ?k + ?k))) = Some point
                 \<and> symbols ! j = \<lparr>I = I point, Q = Q point\<rparr>"
    by blast
  have le: "?k * ?N \<le> length bs" by simp
  then have len': "length ?bs' = ?k * ?N" by simp
  then have N': "length ?bs' div ?k = ?N" using kpos by simp
  have "set ?bs' \<subseteq> {0, 1}" using assms by (meson set_take_subset subset_trans)
  from modulateBits_groups [OF this, of scheme]
  obtain symbols' where r': "modulateBits ?bs' ?cs = Some (Inr symbols')"
    and l': "length symbols' = ?N"
    and g': "\<forall>j < ?N. \<exists>point. bitMapOf ?cs (join (slice ?bs' (j * ?k) (j * ?k + ?k))) = Some point
                 \<and> symbols' ! j = \<lparr>I = I point, Q = Q point\<rparr>"
    unfolding N' by blast
  have same: "symbols' ! j = symbols ! j" if "j < ?N" for j
  proof -
    from that have "Suc j \<le> ?N" by simp
    then have "Suc j * ?k \<le> ?N * ?k" by (rule mult_le_mono1)
    then have "j * ?k + ?k \<le> ?k * ?N" by (simp add: mult.commute)
    then have "slice ?bs' (j * ?k) (j * ?k + ?k) = slice bs (j * ?k) (j * ?k + ?k)"
      by (rule slice_take)
    then have sl: "slice ?bs' (j * ?k) (j * ?k + ?k) = slice bs (j * ?k) (j * ?k + ?k)" .
    from g that obtain p where p: "bitMapOf ?cs (join (slice bs (j * ?k) (j * ?k + ?k))) = Some p"
      "symbols ! j = \<lparr>I = I p, Q = Q p\<rparr>" by blast
    from g' that obtain q where q: "bitMapOf ?cs (join (slice ?bs' (j * ?k) (j * ?k + ?k))) = Some q"
      "symbols' ! j = \<lparr>I = I q, Q = Q q\<rparr>" by blast
    from p(1) q(1) have "q = p" by (simp add: sl)
    with p(2) q(2) show ?thesis by simp
  qed
  have "symbols' = symbols" using l l' same by (simp add: list_eq_iff_nth_eq)
  then have r'': "modulateBits ?bs' ?cs = Some (Inr symbols)" using r' by simp
  have grp: "\<forall>j < ?N. \<exists>point \<in> set ?cs.
                   bits point = join (slice bs (j * ?k) (j * ?k + ?k))
                   \<and> symbols ! j = \<lparr>I = I point, Q = Q point\<rparr>"
  proof (intro allI impI)
    fix j assume "j < ?N"
    with g obtain p where p: "bitMapOf ?cs (join (slice bs (j * ?k) (j * ?k + ?k))) = Some p"
      "symbols ! j = \<lparr>I = I p, Q = Q p\<rparr>" by blast
    from bitMapOf_Some [OF p(1)] p(2)
    show "\<exists>point \<in> set ?cs. bits point = join (slice bs (j * ?k) (j * ?k + ?k))
                   \<and> symbols ! j = \<lparr>I = I point, Q = Q point\<rparr>"
      by (intro bexI [of _ p]) simp_all
  qed
  from r l grp r'' show ?thesis by (intro exI [of _ symbols] conjI)
qed

theorem modulateBits_generated_witness:
  "set [0, 1, 1, 0, 1::nat] \<subseteq> {0, 1}
   \<and> (\<exists>symbols. modulateBits [0, 1, 1, 0, 1] (generateConstellation QPSK) = Some (Inr symbols)
         \<and> length symbols = 2
         \<and> modulateBits [0, 1, 1, 0] (generateConstellation QPSK) = Some (Inr symbols))"
proof -
  have h: "set [0, 1, 1, 0, 1::nat] \<subseteq> {0, 1}" by simp
  have d: "length [0, 1, 1, 0, 1::nat] div BITS_PER_SYMBOL QPSK = 2" by simp
  have t: "take (BITS_PER_SYMBOL QPSK * 2) [0, 1, 1, 0, 1::nat] = [0, 1, 1, 0]" by simp
  from modulateBits_generated [OF h, of QPSK] h show ?thesis unfolding d t by blast
qed

section \<open>Properties of demodulation\<close>

lemma complexDistanceSquared_nonneg: "0 \<le> complexDistanceSquared a b"
  by (simp add: complexDistanceSquared_def Let_def)

lemma complexDistanceSquared_zero_iff:
  "complexDistanceSquared a b = 0 \<longleftrightarrow> I a = I b \<and> Q a = Q b"
  by (simp add: complexDistanceSquared_def Let_def sum_squares_eq_zero_iff)

lemma decide_scan: "decide cs b0 symbol = snd (foldl (scanStep symbol) (Infinity, b0) cs)"
  by (simp add: decide_def scanStep_def)

lemma scan_settled:
  "foldl (scanStep symbol) (Finite 0, b) cs = (Finite 0, b)"
proof (induction cs)
  case Nil
  show ?case by simp
next
  case (Cons q cs)
  have "\<not> complexDistanceSquared symbol q < 0"
    using complexDistanceSquared_nonneg [of symbol q] by simp
  then have "scanStep symbol (Finite 0, b) q = (Finite 0, b)"
    by (simp add: scanStep_def Let_def)
  with Cons show ?case by simp
qed

lemma scan_finds:
  assumes "p \<in> set cs"
    and "I p = I symbol" and "Q p = Q symbol"
    and "\<forall>q \<in> set cs. I q = I symbol \<and> Q q = Q symbol \<longrightarrow> bits q = bits p"
    and "scanInv (bits p) st"
  shows "foldl (scanStep symbol) st cs = (Finite 0, bits p)"
  using assms
proof (induction cs arbitrary: st)
  case Nil
  then show ?case by simp
next
  case (Cons q cs)
  obtain m d where st: "st = (m, d)" by (cases st)
  let ?dist = "complexDistanceSquared symbol q"
  let ?st' = "scanStep symbol st q"
  have same: "?dist = 0 \<Longrightarrow> bits q = bits p"
    using Cons.prems(4) by (simp add: complexDistanceSquared_zero_iff)
  have inv': "scanInv (bits p) ?st'"
    using Cons.prems(5) same complexDistanceSquared_nonneg [of symbol q]
    by (cases m) (auto simp: st scanStep_def Let_def)
  show ?case
  proof (cases "?dist = 0")
    case True
    then have "?st' = (Finite 0, bits p)"
      using Cons.prems(5) same by (cases m) (auto simp: st scanStep_def Let_def)
    then show ?thesis by (simp add: scan_settled)
  next
    case False
    then have "q \<noteq> p"
      using Cons.prems(2,3) by (auto simp: complexDistanceSquared_zero_iff)
    with Cons.prems(1) have "p \<in> set cs" by simp
    from Cons.IH [OF this Cons.prems(2,3) _ inv'] Cons.prems(4)
    show ?thesis by simp
  qed
qed

lemma demodulate_ideal:
  assumes "p \<in> set cs"
    and "\<forall>q \<in> set cs. I q = I p \<and> Q q = Q p \<longrightarrow> bits q = bits p"
  shows "demodulate [p] cs = Inr [bits p]"
proof -
  from assms(1) obtain c0 rest where cs: "cs = c0 # rest" by (cases cs) auto
  have "foldl (scanStep p) (Infinity, bits c0) cs = (Finite 0, bits p)"
    by (rule scan_finds [OF assms(1) refl refl assms(2)]) simp
  then show ?thesis
    by (simp add: demodulate_def decide_scan cs)
qed

lemma octant_angle_inj:
  assumes "i < 8" "j < 8"
    and "cos (real i * pi / 4) = cos (real j * pi / 4)"
    and "sin (real i * pi / 4) = sin (real j * pi / 4)"
  shows "i = j"
proof -
  from assms(3,4) obtain n :: int where n: "real i * pi / 4 = real j * pi / 4 + 2 * pi * real_of_int n"
    using sin_cos_eq_iff [of "real i * pi / 4" "real j * pi / 4"] by auto
  have "real i * pi / 4 = (real j + 8 * real_of_int n) * (pi / 4)"
    using n by (simp add: algebra_simps)
  then have "real i = real j + 8 * real_of_int n" by simp
  then have "real_of_int (int i) = real_of_int (int j + 8 * n)" by simp
  then have "int i = int j + 8 * n" by (simp only: of_int_eq_iff)
  with assms(1,2) show ?thesis by presburger
qed


lemma coords16_inj: "i < 4 \<Longrightarrow> j < 4 \<Longrightarrow> coords16 ! i = coords16 ! j \<Longrightarrow> i = j"
proof -
  have "distinct coords16" by (simp add: coords16_def)
  moreover have "length coords16 = 4" by (simp add: coords16_def)
  ultimately show "i < 4 \<Longrightarrow> j < 4 \<Longrightarrow> coords16 ! i = coords16 ! j \<Longrightarrow> i = j"
    by (simp add: nth_eq_iff_index_eq)
qed

lemma coords64_inj: "i < 8 \<Longrightarrow> j < 8 \<Longrightarrow> coords64 ! i = coords64 ! j \<Longrightarrow> i = j"
proof -
  have "distinct coords64" by (simp add: coords64_def)
  moreover have "length coords64 = 8" by (simp add: coords64_def)
  ultimately show "i < 8 \<Longrightarrow> j < 8 \<Longrightarrow> coords64 ! i = coords64 ! j \<Longrightarrow> i = j"
    by (simp add: nth_eq_iff_index_eq)
qed

lemma set_grid:
  "set (concat (map (\<lambda>qi. map (\<lambda>ii. f ii qi) [0..<n]) [0..<n])) = {f ii qi | ii qi. ii < n \<and> qi < n}"
  by auto blast

lemma in_generate8PSK:
  "p \<in> set generate8PSK \<Longrightarrow>
   \<exists>i < 8. p = \<lparr>I = cos (real i * pi / 4), Q = sin (real i * pi / 4), bits = grayCode3 ! i\<rparr>"
  unfolding generate8PSK_def by (auto simp: Let_def complexFromPolar_def)

lemma in_generate16QAM:
  "p \<in> set generate16QAM \<Longrightarrow>
   \<exists>ii < 4. \<exists>qi < 4. p = \<lparr>I = coords16 ! ii * (1 / sqrt 10), Q = coords16 ! qi * (1 / sqrt 10),
                 bits = gray2 ! ii @ gray2 ! qi\<rparr>"
  unfolding generate16QAM_def Let_def set_grid by blast

lemma in_generate64QAM:
  "p \<in> set generate64QAM \<Longrightarrow>
   \<exists>ii < 8. \<exists>qi < 8. p = \<lparr>I = coords64 ! ii * (1 / sqrt 42), Q = coords64 ! qi * (1 / sqrt 42),
                 bits = grayCode3 ! ii @ grayCode3 ! qi\<rparr>"
  unfolding generate64QAM_def Let_def set_grid by blast

lemma generated_coordinates_determine_label:
  assumes "p \<in> set (generateConstellation s)" and "q \<in> set (generateConstellation s)"
    and "I q = I p" and "Q q = Q p"
  shows "bits q = bits p"
proof (cases s)
  case BPSK
  with assms show ?thesis by (auto simp: generateBPSK_def)
next
  case QPSK
  with assms show ?thesis by (auto simp: generateQPSK_def Let_def)
next
  case PSK8
  with assms(1) in_generate8PSK [of p] obtain i where i: "i < 8"
    and p: "p = \<lparr>I = cos (real i * pi / 4), Q = sin (real i * pi / 4), bits = grayCode3 ! i\<rparr>"
    by auto
  from PSK8 assms(2) in_generate8PSK [of q] obtain j where j: "j < 8"
    and q: "q = \<lparr>I = cos (real j * pi / 4), Q = sin (real j * pi / 4), bits = grayCode3 ! j\<rparr>"
    by auto
  from assms(3,4) have "cos (real j * pi / 4) = cos (real i * pi / 4)"
    "sin (real j * pi / 4) = sin (real i * pi / 4)" by (simp_all add: p q)
  with octant_angle_inj [OF j i] have "j = i" by simp
  then show ?thesis by (simp add: p q)
next
  case QAM16
  with assms(1) in_generate16QAM [of p] obtain ii qi where lt: "ii < 4" "qi < 4"
    and p: "p = \<lparr>I = coords16 ! ii * (1 / sqrt 10), Q = coords16 ! qi * (1 / sqrt 10),
                 bits = gray2 ! ii @ gray2 ! qi\<rparr>"
    by auto
  from QAM16 assms(2) in_generate16QAM [of q] obtain ii' qi' where lt': "ii' < 4" "qi' < 4"
    and q: "q = \<lparr>I = coords16 ! ii' * (1 / sqrt 10), Q = coords16 ! qi' * (1 / sqrt 10),
                 bits = gray2 ! ii' @ gray2 ! qi'\<rparr>"
    by auto
  from assms(3,4) have "coords16 ! ii' = coords16 ! ii" "coords16 ! qi' = coords16 ! qi"
    by (simp_all add: p q)
  with lt lt' coords16_inj have "ii' = ii" "qi' = qi" by blast+
  then show ?thesis by (simp add: p q)
next
  case QAM64
  with assms(1) in_generate64QAM [of p] obtain ii qi where lt: "ii < 8" "qi < 8"
    and p: "p = \<lparr>I = coords64 ! ii * (1 / sqrt 42), Q = coords64 ! qi * (1 / sqrt 42),
                 bits = grayCode3 ! ii @ grayCode3 ! qi\<rparr>"
    by auto
  from QAM64 assms(2) in_generate64QAM [of q] obtain ii' qi' where lt': "ii' < 8" "qi' < 8"
    and q: "q = \<lparr>I = coords64 ! ii' * (1 / sqrt 42), Q = coords64 ! qi' * (1 / sqrt 42),
                 bits = grayCode3 ! ii' @ grayCode3 ! qi'\<rparr>"
    by auto
  from assms(3,4) have "coords64 ! ii' = coords64 ! ii" "coords64 ! qi' = coords64 ! qi"
    by (simp_all add: p q)
  with lt lt' coords64_inj have "ii' = ii" "qi' = qi" by blast+
  then show ?thesis by (simp add: p q)
qed

text \<open>
  Claim C2. Demodulating an ideal point gives back its own label: for every modulation
  scheme and every point \<open>p\<close> of the generated constellation, \<open>demodulate\<close> on the
  one-element list \<open>[p]\<close> returns the one-element list \<open>[bits p]\<close>.
\<close>

theorem demodulate_roundtrip:
  "\<forall>p \<in> set (generateConstellation s). demodulate [p] (generateConstellation s) = Inr [bits p]"
  using demodulate_ideal generated_coordinates_determine_label by blast

theorem demodulate_roundtrip_witness:
  "\<lparr>I = -1, Q = 0, bits = ''1''\<rparr> \<in> set (generateConstellation BPSK)
   \<and> demodulate [\<lparr>I = -1, Q = 0, bits = ''1''\<rparr>] (generateConstellation BPSK) = Inr [''1'']"
proof -
  have h: "\<lparr>I = -1, Q = 0, bits = ''1''\<rparr> \<in> set (generateConstellation BPSK)"
    by (simp add: generateBPSK_def)
  with demodulate_roundtrip [of BPSK] show ?thesis by fastforce
qed

section \<open>Properties of bit error counting\<close>

lemma count_loop_eq:
  "foldl (\<lambda>errors i. if a ! i \<noteq> b ! i then errors + 1 else errors) e [0..<n]
     = e + card {i. i < n \<and> a ! i \<noteq> b ! i}"
proof (induction n arbitrary: e)
  case 0
  then show ?case by simp
next
  case (Suc n)
  have split: "{i. i < Suc n \<and> a ! i \<noteq> b ! i}
      = (if a ! n \<noteq> b ! n then insert n {i. i < n \<and> a ! i \<noteq> b ! i}
         else {i. i < n \<and> a ! i \<noteq> b ! i})"
    by (auto simp: less_Suc_eq)
  show ?case
    by (simp add: Suc.IH split del: if_split) (simp add: split)
qed

lemma hamming_zero_iff:
  assumes "length a = length b"
  shows "card {i. i < length a \<and> a ! i \<noteq> b ! i} = 0 \<longleftrightarrow> a = b"
proof -
  have "finite {i. i < length a \<and> a ! i \<noteq> b ! i}" by simp
  then have "card {i. i < length a \<and> a ! i \<noteq> b ! i} = 0
      \<longleftrightarrow> {i. i < length a \<and> a ! i \<noteq> b ! i} = {}"
    by (rule card_0_eq)
  also have "\<dots> \<longleftrightarrow> (\<forall>i < length a. a ! i = b ! i)" by auto
  also have "\<dots> \<longleftrightarrow> a = b" using assms by (auto simp: list_eq_iff_nth_eq)
  finally show ?thesis .
qed

lemma hamming_sym:
  "length a = length b \<Longrightarrow>
   card {i. i < length a \<and> a ! i \<noteq> b ! i} = card {i. i < length b \<and> b ! i \<noteq> a ! i}"
  by (rule arg_cong [where f = card]) auto

text \<open>
  Claim C9. \<open>countBitErrors\<close> (on bit arrays) and \<open>countBitErrorsFromStrings\<close> (on bit
  strings) return, for inputs of equal length, the Hamming distance: the number of
  positions where the two inputs differ. Each is symmetric in its arguments, returns 0
  exactly when the two inputs are identical, and fails with an InvalidArgument error
  exactly when the lengths differ.
\<close>

theorem countBitErrors_hamming:
  "(length a = length b \<longrightarrow>
      countBitErrors a b = Inr (card {i. i < length a \<and> a ! i \<noteq> b ! i}))
   \<and> countBitErrors a b = countBitErrors b a
   \<and> (countBitErrors a b = Inr 0 \<longleftrightarrow> a = b)
   \<and> ((\<exists>msg. countBitErrors a b = Inl (InvalidArgument msg)) \<longleftrightarrow> length a \<noteq> length b)
   \<and> (length s = length t \<longrightarrow>
      countBitErrorsFromStrings s t = Inr (card {i. i < length s \<and> s ! i \<noteq> t ! i}))
   \<and> countBitErrorsFromStrings s t = countBitErrorsFromStrings t s
   \<and> (countBitErrorsFromStrings s t = Inr 0 \<longleftrightarrow> s = t)
   \<and> ((\<exists>msg. countBitErrorsFromStrings s t = Inl (InvalidArgument msg))
        \<longleftrightarrow> length s \<noteq> length t)"
proof -
  have A: "countBitErrors a b = countBitErrors b a"
    using hamming_sym [of a b] by (auto simp: countBitErrors_def count_loop_eq)
  have B: "countBitErrors a b = Inr 0 \<longleftrightarrow> a = b"
    using hamming_zero_iff [of a b] by (auto simp: countBitErrors_def count_loop_eq)
  have C: "countBitErrorsFromStrings s t = countBitErrorsFromStrings t s"
    using hamming_sym [of s t] by (auto simp: countBitErrorsFromStrings_def count_loop_eq)
  have D: "countBitErrorsFromStrings s t = Inr 0 \<longleftrightarrow> s = t"
    using hamming_zero_iff [of s t]
    by (auto simp: countBitErrorsFromStrings_def count_loop_eq)
  show ?thesis
    using A B C D by (simp add: countBitErrors_def countBitErrorsFromStrings_def count_loop_eq)
qed

theorem countBitErrors_hamming_witness:
  "length [1, 0, 1::nat] = length [1, 1, 1::nat]
   \<and> countBitErrors [1, 0, 1] [1, 1, 1]
       = Inr (card {i. i < length [1, 0, 1::nat] \<and> [1, 0, 1::nat] ! i \<noteq> [1, 1, 1] ! i})
   \<and> length ''101'' \<noteq> length ''10''
   \<and> (\<exists>msg. countBitErrorsFromStrings ''101'' ''10'' = Inl (InvalidArgument msg))"
proof -
  note T = countBitErrors_hamming [of "[1, 0, 1]" "[1, 1, 1]" "''101''" "''10''"]
  have h1: "length [1, 0, 1::nat] = length [1, 1, 1::nat]" by simp
  have h2: "length ''101'' \<noteq> length ''10''" by simp
  from T h1 have c1: "countBitErrors [1, 0, 1] [1, 1, 1]
       = Inr (card {i. i < length [1, 0, 1::nat] \<and> [1, 0, 1::nat] ! i \<noteq> [1, 1, 1] ! i})"
    by blast
  from T h2 have c2: "\<exists>msg. countBitErrorsFromStrings ''101'' ''10'' = Inl (InvalidArgument msg)"
    by blast
  from h1 h2 c1 c2 show ?thesis by blast
qed

section \<open>Properties of the Q-function\<close>

lemma qFunction_zero: "qFunction 0 = 0.3989422804014327 * 1.253314136"
  by (subst qFunction.simps) (simp add: Let_def)


text \<open>
  Claim C8 says that \<open>qFunction 0\<close> is exactly one half. The source has no special case
  for 0: it evaluates the approximation, whose value at 0 is the constant
  \<open>0.3989422804014327\<close> times the sum \<open>1.253314136\<close> of the five coefficients, which is
  about \<open>0.49999999948\<close>.
\<close>

theorem qFunction_zero_not_half: "qFunction 0 \<noteq> 1 / 2"
  by (simp add: qFunction_zero)

text \<open>
  Claim C8, amended. \<open>qFunction 0\<close> is the product \<open>0.3989422804014327 * 1.253314136\<close>,
  which is one half within \<open>10\<^sup>-\<^sup>9\<close>.
\<close>

theorem qFunction_zero_approx:
  "qFunction 0 = 0.3989422804014327 * 1.253314136 \<and> \<bar>qFunction 0 - 1 / 2\<bar> < 1 / 10 ^ 9"
  by (simp add: qFunction_zero)

lemma quadratic_pos:
  fixes a b c t :: real
  assumes "0 < a" and "b * b < 4 * a * c"
  shows "0 < a * (t * t) + b * t + c"
proof -
  have "4 * a * (a * (t * t) + b * t + c) = (2 * a * t + b)\<^sup>2 + (4 * a * c - b * b)"
    by (simp add: power2_eq_square algebra_simps)
  moreover have "0 \<le> (2 * a * t + b)\<^sup>2" by simp
  ultimately have "0 < 4 * a * (a * (t * t) + b * t + c)" using assms(2) by linarith
  with assms(1) show ?thesis by (simp add: zero_less_mult_iff)
qed

lemma asPoly_bounds:
  assumes "0 \<le> t" "t \<le> 1"
  shows "0 \<le> asPoly t \<and> asPoly t \<le> 2.2"
proof -
  have q1: "0 < 1.330274429 * (t * t) + (-1.821255978) * t + (1.781477937 - 1.15)"
    by (rule quadratic_pos) simp_all
  have q2: "0 < 1.15 * (t * t) + (-0.356563782) * t + 0.319381530"
    by (rule quadratic_pos) simp_all
  have t2: "0 \<le> t * t" by simp
  have "1.15 * (t * t) \<le> (1.781477937 + t * (-1.821255978 + t * 1.330274429)) * (t * t)"
    using q1 t2 by (intro mult_right_mono) (simp_all add: algebra_simps)
  then have lo: "0 \<le> 0.319381530 + t * (-0.356563782 + t * (1.781477937 + t * (-1.821255978 + t * 1.330274429)))"
    using q2 by (simp add: algebra_simps)
  have "t * 1.330274429 \<le> 1.330274429" using assms by simp
  then have "-1.821255978 + t * 1.330274429 \<le> 0" by simp
  then have "t * (-1.821255978 + t * 1.330274429) \<le> 0" using assms(1) by (simp add: mult_nonneg_nonpos)
  then have "t * (1.781477937 + t * (-1.821255978 + t * 1.330274429)) \<le> t * 1.781477937"
    using assms(1) by (intro mult_left_mono) simp_all
  also have "\<dots> \<le> 1.781477937" using assms by simp
  finally have "-0.356563782 + t * (1.781477937 + t * (-1.821255978 + t * 1.330274429)) \<le> 1.43" by simp
  then have "t * (-0.356563782 + t * (1.781477937 + t * (-1.821255978 + t * 1.330274429))) \<le> t * 1.43"
    using assms(1) by (intro mult_left_mono) simp_all
  also have "\<dots> \<le> 1.43" using assms by simp
  finally have hi: "0.319381530 + t * (-0.356563782 + t * (1.781477937 + t * (-1.821255978 + t * 1.330274429))) \<le> 2.2"
    by simp
  have "asPoly t \<le> 1 * 2.2"
    unfolding asPoly_def using assms lo hi by (intro mult_mono) simp_all
  moreover have "0 \<le> asPoly t" unfolding asPoly_def using assms(1) lo by (rule mult_nonneg_nonneg)
  ultimately show ?thesis by simp
qed

lemma qFunction_mid:
  "0 \<le> x \<Longrightarrow> x \<le> 8 \<Longrightarrow>
   qFunction x = 0.3989422804014327 * exp (-0.5 * x * x) * asPoly (1 / (1 + 0.2316419 * x))"
  by (subst qFunction.simps) (simp add: Let_def asPoly_def)

lemma qFunction_large: "8 < x \<Longrightarrow> qFunction x = 0"
  by (subst qFunction.simps) simp

lemma qFunction_neg: "x < 0 \<Longrightarrow> qFunction x = 1 - qFunction (- x)"
  by (subst qFunction.simps) simp

lemma qFunction_range_nonneg:
  assumes "0 \<le> x"
  shows "0 \<le> qFunction x \<and> qFunction x \<le> 1"
proof (cases "8 < x")
  case True
  then show ?thesis by (simp add: qFunction_large)
next
  case False
  then have x8: "x \<le> 8" by simp
  let ?t = "1 / (1 + 0.2316419 * x)"
  have den: "1 \<le> 1 + 0.2316419 * x" using assms by simp
  then have t: "0 \<le> ?t" "?t \<le> 1" by simp_all
  from asPoly_bounds [OF t] have p: "0 \<le> asPoly ?t" "asPoly ?t \<le> 2.2" by simp_all
  have "- 0.5 * x * x \<le> 0" using assms by (simp add: mult_nonneg_nonneg)
  then have e: "0 < exp (-0.5 * x * x)" "exp (-0.5 * x * x) \<le> 1" by simp_all
  have "0.3989422804014327 * exp (-0.5 * x * x) \<le> 0.3989422804014327 * 1"
    using e(2) by (intro mult_left_mono) simp_all
  also have "\<dots> \<le> (0.4::real)" by simp
  finally have pdf2: "0.3989422804014327 * exp (-0.5 * x * x) \<le> 0.4" .
  have pdf1: "0 \<le> 0.3989422804014327 * exp (-0.5 * x * x)" by simp
  note pdf = pdf1 pdf2
  have "0.3989422804014327 * exp (-0.5 * x * x) * asPoly ?t \<le> 0.4 * 2.2"
    using pdf p by (intro mult_mono) simp_all
  moreover have "0 \<le> 0.3989422804014327 * exp (-0.5 * x * x) * asPoly ?t"
    using pdf(1) p(1) by (rule mult_nonneg_nonneg)
  ultimately show ?thesis by (simp add: qFunction_mid [OF assms x8])
qed

lemma qFunction_range_all: "0 \<le> qFunction x \<and> qFunction x \<le> 1"
proof (cases "x < 0")
  case True
  then have "0 \<le> - x" by simp
  from qFunction_range_nonneg [OF this] True show ?thesis by (simp add: qFunction_neg)
next
  case False
  then show ?thesis by (simp add: qFunction_range_nonneg)
qed

text \<open>
  Claim C10. For every real \<open>x\<close>, \<open>qFunction x\<close> lies in the closed interval from 0 to
  1: above 8 it is 0; from 0 to 8 it is the product of the density and the polynomial,
  which is at least 0 and at most 1; below 0 it is \<open>1 - qFunction (- x)\<close>.
\<close>

theorem qFunction_probability:
  "0 \<le> qFunction x \<and> qFunction x \<le> 1
   \<and> (8 < x \<longrightarrow> qFunction x = 0)
   \<and> (0 \<le> x \<and> x \<le> 8 \<longrightarrow>
        qFunction x = 0.3989422804014327 * exp (-0.5 * x * x) * asPoly (1 / (1 + 0.2316419 * x))
        \<and> 0 \<le> 0.3989422804014327 * exp (-0.5 * x * x) * asPoly (1 / (1 + 0.2316419 * x))
        \<and> 0.3989422804014327 * exp (-0.5 * x * x) * asPoly (1 / (1 + 0.2316419 * x)) \<le> 1)
   \<and> (x < 0 \<longrightarrow> qFunction x = 1 - qFunction (- x))"
  using qFunction_range_all [of x] qFunction_large [of x] qFunction_mid [of x] qFunction_neg [of x]
  by auto

theorem qFunction_probability_witness:
  "(8::real) < 9 \<and> qFunction 9 = 0 \<and> (0::real) \<le> 0 \<and> (0::real) \<le> 8 \<and> 0 \<le> qFunction 0 \<and> qFunction 0 \<le> 1
   \<and> (-1::real) < 0 \<and> qFunction (-1) = 1 - qFunction 1"
  using qFunction_probability [of 9] qFunction_probability [of 0] qFunction_probability [of "-1"]
  by simp

section \<open>Properties of the theoretical error rates\<close>

text \<open>
  Claim C5. The BPSK and the QPSK theoretical bit error rates are the same function of
  Eb/N0: \<open>theoreticalBER BPSK x = theoreticalBER QPSK x\<close> for every \<open>x\<close> in dB.
\<close>

theorem theoreticalBER_BPSK_eq_QPSK:
  "theoreticalBER BPSK x = theoreticalBER QPSK x"
  by (simp add: theoreticalBER_def berBPSK_def berQPSK_def)

text \<open>
  On exact real numbers each error-rate formula is non-increasing in Eb/N0. The source
  evaluates the formulas on IEEE doubles, where every operation rounds; the lemmas below
  say nothing about the order of two rounded results at nearby inputs.
\<close>

lemma asPoly_deriv: "(asPoly has_real_derivative asPoly' t) (at t)"
  unfolding asPoly_def asPoly'_def
  by (auto intro!: derivative_eq_intros simp: algebra_simps power2_eq_square power3_eq_cube power4_eq_xxxx)

lemma asPoly'_pos: "0 \<le> asPoly' t"
proof -
  have q1: "0 < (5 * 1.330274429) * (t * t) + (4 * (-1.821255978)) * t + (3 * 1.781477937 - 3.3)"
    by (rule quadratic_pos) simp_all
  have q2: "0 < 3.3 * (t * t) + (2 * (-0.356563782)) * t + 0.319381530"
    by (rule quadratic_pos) simp_all
  have t2: "0 \<le> t * t" by simp
  have "0 \<le> ((5 * 1.330274429) * (t * t) + (4 * (-1.821255978)) * t + (3 * 1.781477937 - 3.3)) * (t * t)"
    using less_imp_le [OF q1] t2 by (rule mult_nonneg_nonneg)
  with q2 show ?thesis
    unfolding asPoly'_def by (simp add: algebra_simps power2_eq_square power3_eq_cube power4_eq_xxxx)
qed

lemma asPoly_mono: "s \<le> t \<Longrightarrow> asPoly s \<le> asPoly t"
  by (rule DERIV_nonneg_imp_nondecreasing [where f = asPoly])
     (auto intro: asPoly_deriv asPoly'_pos)

lemma qFunction_antimono:
  assumes "0 \<le> x" and "x \<le> y"
  shows "qFunction y \<le> qFunction x"
proof (cases "8 < y")
  case True
  then show ?thesis using qFunction_range_all [of x] by (simp add: qFunction_large)
next
  case False
  then have y8: "y \<le> 8" by simp
  with assms have x8: "x \<le> 8" and y0: "0 \<le> y" by simp_all
  let ?t = "\<lambda>z::real. 1 / (1 + 0.2316419 * z)"
  have dx: "0 < 1 + 0.2316419 * x" using assms(1) by (simp add: add_pos_nonneg)
  have "1 + 0.2316419 * x \<le> 1 + 0.2316419 * y" using assms(2) by simp
  with dx have t_le: "?t y \<le> ?t x" by (simp only: frac_le [OF _ order_refl] zero_le_one)
  have "1 \<le> 1 + 0.2316419 * y" using y0 by simp
  then have ty: "0 \<le> ?t y" "?t y \<le> 1" by simp_all
  have p_le: "asPoly (?t y) \<le> asPoly (?t x)" using t_le by (rule asPoly_mono)
  have p0: "0 \<le> asPoly (?t y)" using asPoly_bounds [OF ty] by simp
  have "x * x \<le> y * y" using assms by (intro mult_mono) simp_all
  then have "exp (-0.5 * y * y) \<le> exp (-0.5 * x * x)" by simp
  then have e_le: "0.3989422804014327 * exp (-0.5 * y * y) \<le> 0.3989422804014327 * exp (-0.5 * x * x)"
    by (intro mult_left_mono) simp_all
  have e0: "0 \<le> 0.3989422804014327 * exp (-0.5 * x * x)" by simp
  have "0.3989422804014327 * exp (-0.5 * y * y) * asPoly (?t y)
      \<le> 0.3989422804014327 * exp (-0.5 * x * x) * asPoly (?t x)"
    using e_le p_le e0 p0 by (rule mult_mono)
  then show ?thesis
    by (simp only: qFunction_mid [OF assms(1) x8] qFunction_mid [OF y0 y8])
qed

lemma dbToLinear_mono: "x \<le> y \<Longrightarrow> dbToLinear x \<le> dbToLinear y"
  by (simp add: dbToLinear_def powr_mono)

lemma dbToLinear_nonneg: "0 \<le> dbToLinear x"
  by (simp add: dbToLinear_def)

lemma theoreticalBER_antimono:
  assumes "x \<le> y"
  shows "theoreticalBER s y \<le> theoreticalBER s x"
proof -
  define a b where "a = dbToLinear x" and "b = dbToLinear y"
  have ab: "0 \<le> a" "a \<le> b"
    using assms by (simp_all add: a_def b_def dbToLinear_nonneg dbToLinear_mono)
  have s8: "0 \<le> sin (pi / 8)" by (rule sin_ge_zero) simp_all
  have q: "qFunction (sqrt (c * b) * d) \<le> qFunction (sqrt (c * a) * d)"
    if "0 \<le> c" "0 \<le> d" for c d :: real
  proof (rule qFunction_antimono)
    show "0 \<le> sqrt (c * a) * d" using that ab by simp
    have "c * a \<le> c * b" using that(1) ab(2) by (rule mult_left_mono [rotated])
    then have "sqrt (c * a) \<le> sqrt (c * b)" by simp
    then show "sqrt (c * a) * d \<le> sqrt (c * b) * d" using that(2) by (rule mult_right_mono)
  qed
  show ?thesis
  proof (cases s)
    case BPSK
    with q [of 2 1] show ?thesis
      by (simp add: theoreticalBER_def berBPSK_def a_def b_def)
  next
    case QPSK
    with q [of 2 1] show ?thesis
      by (simp add: theoreticalBER_def berQPSK_def a_def b_def)
  next
    case PSK8
    with q [of 6 "sin (pi / 8)"] s8 show ?thesis
      by (simp add: theoreticalBER_def ber8PSK_def Let_def a_def b_def)
  next
    case QAM16
    with q [of "12 / 15" 1] show ?thesis
      by (simp add: theoreticalBER_def ber16QAM_def Let_def a_def b_def)
  next
    case QAM64
    with q [of "18 / 63" 1] show ?thesis
      by (simp add: theoreticalBER_def ber64QAM_def Let_def a_def b_def)
  qed
qed

section \<open>Properties of the required-SNR search\<close>

lemma searchLoop_bracket:
  assumes "low \<le> high" and "L \<le> low" and "high \<le> U"
    and "theoreticalBER s high \<le> t" and "t \<le> theoreticalBER s low"
  shows "\<exists>l h. L \<le> l \<and> l \<le> h \<and> h \<le> U \<and> h - l \<le> 0.01
           \<and> theoreticalBER s h \<le> t \<and> t \<le> theoreticalBER s l
           \<and> searchLoop s t low high = (l + h) / 2"
  using assms
proof (induction s t low high rule: searchLoop.induct)
  case (1 scheme targetBER low high)
  show ?case
  proof (cases "high - low > 0.01")
    case False
    then have "searchLoop scheme targetBER low high = (low + high) / 2"
      by (subst searchLoop.simps) simp
    with False "1.prems" show ?thesis by (intro exI [of _ low] exI [of _ high]) simp
  next
    case wide: True
    define mid where "mid = (low + high) / 2"
    have mid: "low \<le> mid" "mid \<le> high" using "1.prems"(1) by (simp_all add: mid_def)
    show ?thesis
    proof (cases "theoreticalBER scheme mid > targetBER")
      case True
      have step: "searchLoop scheme targetBER low high = searchLoop scheme targetBER mid high"
        using wide True by (subst searchLoop.simps) (simp add: Let_def mid_def)
      have "\<exists>l h. L \<le> l \<and> l \<le> h \<and> h \<le> U \<and> h - l \<le> 0.01
           \<and> theoreticalBER scheme h \<le> targetBER \<and> targetBER \<le> theoreticalBER scheme l
           \<and> searchLoop scheme targetBER mid high = (l + h) / 2"
        using wide True mid "1.prems"
        by (intro "1.IH"(1) [OF wide mid_def refl]) simp_all
      then show ?thesis by (simp only: step)
    next
      case False
      have step: "searchLoop scheme targetBER low high = searchLoop scheme targetBER low mid"
        using wide False by (subst searchLoop.simps) (simp add: Let_def mid_def)
      have "\<exists>l h. L \<le> l \<and> l \<le> h \<and> h \<le> U \<and> h - l \<le> 0.01
           \<and> theoreticalBER scheme h \<le> targetBER \<and> targetBER \<le> theoreticalBER scheme l
           \<and> searchLoop scheme targetBER low mid = (l + h) / 2"
        using wide False mid "1.prems"
        by (intro "1.IH"(2) [OF wide mid_def refl]) simp_all
      then show ?thesis by (simp only: step)
    qed
  qed
qed


lemma dbToLinear_30: "dbToLinear 30 = 1000"
  by (simp add: dbToLinear_def)

lemma sin_pi8_gt: "1 / 4 < sin (pi / 8)"
proof -
  have pos: "0 \<le> sin (pi / 8)" by (rule sin_ge_zero) simp_all
  define S where "S = (sin (pi / 8))\<^sup>2"
  define R where "R = sqrt 2"
  have "cos (2 * (pi / 8)) = 1 - 2 * S" unfolding S_def by (rule cos_double_sin)
  moreover have "cos (2 * (pi / 8)) = R / 2" unfolding R_def using cos_45 by simp
  ultimately have s2: "S = (1 - R / 2) / 2" by simp
  have r2: "R < 7 / 4" unfolding R_def by (rule real_less_lsqrt) (simp_all add: power2_eq_square)
  have "(1 / 4 :: real)\<^sup>2 = 1 / 16" by (simp add: power2_eq_square)
  also have "\<dots> < (1 - R / 2) / 2" using r2 by (simp add: field_simps)
  finally have "(1 / 4)\<^sup>2 < (sin (pi / 8))\<^sup>2" by (simp only: s2 S_def [symmetric])
  then show ?thesis using pos by (rule power2_less_imp_less)
qed

lemma theoreticalBER_30: "theoreticalBER s 30 = 0"
proof (cases s)
  case BPSK
  have "8 < sqrt 2000" by (rule real_less_rsqrt) simp
  then show ?thesis by (simp add: BPSK theoreticalBER_def dbToLinear_30 berBPSK_def qFunction_large)
next
  case QPSK
  have "8 < sqrt 2000" by (rule real_less_rsqrt) simp
  then show ?thesis by (simp add: QPSK theoreticalBER_def dbToLinear_30 berQPSK_def qFunction_large)
next
  case PSK8
  have "32 < sqrt 6000" by (rule real_less_rsqrt) simp
  then have "32 * (1 / 4) < sqrt 6000 * sin (pi / 8)"
    using sin_pi8_gt by (intro mult_strict_mono) simp_all
  then have "8 < sqrt 6000 * sin (pi / 8)" by simp
  then show ?thesis by (simp add: PSK8 theoreticalBER_def dbToLinear_30 ber8PSK_def Let_def qFunction_large)
next
  case QAM16
  have "8 < sqrt 800" by (rule real_less_rsqrt) simp
  then show ?thesis by (simp add: QAM16 theoreticalBER_def dbToLinear_30 ber16QAM_def Let_def qFunction_large)
next
  case QAM64
  have "8 < sqrt (2000 / 7)" by (rule real_less_rsqrt) simp
  then show ?thesis by (simp add: QAM64 theoreticalBER_def dbToLinear_30 ber64QAM_def Let_def qFunction_large)
qed

lemma theoreticalBER_nonneg: "0 \<le> theoreticalBER s x"
  using qFunction_range_all
  by (cases s) (simp_all add: theoreticalBER_def berBPSK_def berQPSK_def ber8PSK_def
      ber16QAM_def ber64QAM_def Let_def)

text \<open>
  Claim C6. \<open>requiredEbN0ForBER\<close> always returns (the search loop is a total function):
  \<open>Infinity\<close> if the error rate at 30 dB is above the target; \<open>-10\<close> if the error rate
  at \<open>-10\<close> dB is below the target; otherwise the midpoint of an interval inside
  \<open>[-10, 30]\<close> of width at most 0.01 that brackets the target (the rate at its upper
  end is at most the target, the rate at its lower end is at least the target).
\<close>

theorem requiredEbN0ForBER_cases:
  "(theoreticalBER s 30 > t \<longrightarrow> requiredEbN0ForBER s t = Infinity)
   \<and> (theoreticalBER s (-10) < t \<longrightarrow> requiredEbN0ForBER s t = Finite (-10))
   \<and> (\<not> theoreticalBER s 30 > t \<and> \<not> theoreticalBER s (-10) < t \<longrightarrow>
        (\<exists>low high. -10 \<le> low \<and> low \<le> high \<and> high \<le> 30 \<and> high - low \<le> 0.01
           \<and> theoreticalBER s high \<le> t \<and> t \<le> theoreticalBER s low
           \<and> requiredEbN0ForBER s t = Finite ((low + high) / 2)))"
proof (intro conjI impI)
  assume "theoreticalBER s 30 > t"
  then show "requiredEbN0ForBER s t = Infinity"
    by (simp add: requiredEbN0ForBER_def)
next
  assume a: "theoreticalBER s (-10) < t"
  have "0 \<le> theoreticalBER s (-10)" by (rule theoreticalBER_nonneg)
  with a have "\<not> theoreticalBER s 30 > t" by (simp add: theoreticalBER_30)
  with a show "requiredEbN0ForBER s t = Finite (-10)"
    by (simp add: requiredEbN0ForBER_def)
next
  assume a: "\<not> theoreticalBER s 30 > t \<and> \<not> theoreticalBER s (-10) < t"
  then have "theoreticalBER s 30 \<le> t" "t \<le> theoreticalBER s (-10)" by simp_all
  from searchLoop_bracket [OF _ _ _ this, of "-10" 30]
  obtain l h where "-10 \<le> l" "l \<le> h" "h \<le> 30" "h - l \<le> 0.01"
    "theoreticalBER s h \<le> t" "t \<le> theoreticalBER s l"
    "searchLoop s t (-10) 30 = (l + h) / 2"
    by auto
  moreover from a have "requiredEbN0ForBER s t = Finite (searchLoop s t (-10) 30)"
    by (simp add: requiredEbN0ForBER_def)
  ultimately show "\<exists>low high. -10 \<le> low \<and> low \<le> high \<and> high \<le> 30 \<and> high - low \<le> 0.01
           \<and> theoreticalBER s high \<le> t \<and> t \<le> theoreticalBER s low
           \<and> requiredEbN0ForBER s t = Finite ((low + high) / 2)"
    by auto
qed

theorem requiredEbN0ForBER_cases_witness:
  "theoreticalBER BPSK 30 > -1 \<and> requiredEbN0ForBER BPSK (-1) = Infinity
   \<and> theoreticalBER BPSK (-10) < 2 \<and> requiredEbN0ForBER BPSK 2 = Finite (-10)
   \<and> \<not> theoreticalBER BPSK 30 > 0 \<and> \<not> theoreticalBER BPSK (-10) < 0
   \<and> (\<exists>low high. -10 \<le> low \<and> low \<le> high \<and> high \<le> 30 \<and> high - low \<le> 0.01
           \<and> requiredEbN0ForBER BPSK 0 = Finite ((low + high) / 2))"
proof -
  have b: "0 \<le> theoreticalBER BPSK (-10)" by (rule theoreticalBER_nonneg)
  have u: "theoreticalBER BPSK (-10) \<le> 1"
    using qFunction_range_all by (simp add: theoreticalBER_def berBPSK_def)
  have h1: "theoreticalBER BPSK 30 > -1" by (simp add: theoreticalBER_30)
  have h2: "theoreticalBER BPSK (-10) < 2" using u by simp
  have h3: "\<not> theoreticalBER BPSK 30 > 0 \<and> \<not> theoreticalBER BPSK (-10) < 0"
    using b by (simp add: theoreticalBER_30)
  from requiredEbN0ForBER_cases [where s = BPSK and t = "-1"] h1
  have c1: "requiredEbN0ForBER BPSK (-1) = Infinity" by blast
  from requiredEbN0ForBER_cases [where s = BPSK and t = 2] h2
  have c2: "requiredEbN0ForBER BPSK 2 = Finite (-10)" by blast
  from requiredEbN0ForBER_cases [where s = BPSK and t = 0] h3
  have c3: "\<exists>low high. -10 \<le> low \<and> low \<le> high \<and> high \<le> 30 \<and> high - low \<le> 0.01
           \<and> requiredEbN0ForBER BPSK 0 = Finite ((low + high) / 2)" by blast
  from h1 h2 h3 c1 c2 c3 show ?thesis by blast
qed

section \<open>Properties of the SNR sweep\<close>

lemma generateRandomBits_props:
  "generateRandomBits rnd count pos = (bs, pos') \<Longrightarrow>
     set bs \<subseteq> {0, 1} \<and> length bs = nat count"
  by (auto simp: generateRandomBits_def)

lemma addNoise_length: "addNoise rnd v symbols pos = (rx, pos') \<Longrightarrow> length rx = length symbols"
  by (induction symbols arbitrary: pos rx pos') (auto simp: Let_def split: prod.splits)

lemma addAWGN_length:
  "addAWGN rnd symbols ebN0Db scheme pos = (rx, pos') \<Longrightarrow> length rx = length symbols"
  by (auto simp: addAWGN_def Let_def dest: addNoise_length)

lemma scan_label:
  "snd (foldl (scanStep symbol) (m, d) cs) \<in> insert d (bits ` set cs)"
proof (induction cs arbitrary: m d)
  case Nil
  show ?case by simp
next
  case (Cons q cs)
  obtain m' d' where st: "scanStep symbol (m, d) q = (m', d')" by (cases "scanStep symbol (m, d) q")
  then have "d' = d \<or> d' = bits q" by (auto simp: scanStep_def Let_def split: if_splits)
  with Cons [of m' d'] st show ?case by auto
qed

lemma decide_label: "decide cs b0 symbol \<in> insert b0 (bits ` set cs)"
  by (simp only: decide_scan scan_label)

lemma closest_point:
  "snd (foldl (\<lambda>(minDist, closestPoint) point.
                 let dist = complexDistanceSquared symbol point in
                 if lessThan_number dist minDist then (Finite dist, point)
                 else (minDist, closestPoint)) (m, c) cs) \<in> insert c (set cs)"
proof (induction cs arbitrary: m c)
  case Nil
  show ?case by simp
next
  case (Cons q cs)
  let ?f = "\<lambda>(minDist, closestPoint) point.
                 let dist = complexDistanceSquared symbol point in
                 if lessThan_number dist minDist then (Finite dist, point)
                 else (minDist, closestPoint)"
  obtain m' c' where st: "?f (m, c) q = (m', c')" by (cases "?f (m, c) q")
  then have "c' = c \<or> c' = q" by (auto simp: Let_def split: if_splits)
  with Cons [of m' c'] st show ?case by auto
qed

lemma symbolToBits_label:
  "cs \<noteq> [] \<Longrightarrow> \<exists>l \<in> bits ` set cs. symbolToBits symbol cs = Inr l"
proof -
  assume "cs \<noteq> []"
  then obtain c0 rest where cs: "cs = c0 # rest" by (cases cs) auto
  let ?f = "\<lambda>(minDist, closestPoint) point.
                 let dist = complexDistanceSquared symbol point in
                 if lessThan_number dist minDist then (Finite dist, point)
                 else (minDist, closestPoint)"
  have "c0 \<in> set cs" by (simp add: cs)
  with closest_point [of symbol Infinity c0 cs]
  have mem: "snd (foldl ?f (Infinity, c0) cs) \<in> set cs" by auto
  have eq: "symbolToBits symbol cs = Inr (bits (snd (foldl ?f (Infinity, c0) cs)))"
    unfolding cs symbolToBits_def by simp
  from mem show ?thesis unfolding eq by blast
qed

lemma demodulate_labels:
  assumes "cs \<noteq> []"
  shows "\<exists>ds. demodulate rx cs = Inr ds \<and> length ds = length rx \<and> set ds \<subseteq> bits ` set cs"
proof -
  from assms obtain c0 rest where cs: "cs = c0 # rest" by (cases cs) auto
  have b0: "bits c0 \<in> bits ` set cs" by (simp add: cs)
  have eq: "demodulate rx cs = Inr (map (decide cs (bits c0)) rx)"
    unfolding cs demodulate_def by simp
  have "insert (bits c0) (bits ` set cs) = bits ` set cs" using b0 by (rule insert_absorb)
  with decide_label [of cs "bits c0"] have "decide cs (bits c0) symbol \<in> bits ` set cs" for symbol
    by simp
  then have "set (map (decide cs (bits c0)) rx) \<subseteq> bits ` set cs" by auto
  then show ?thesis unfolding eq by simp
qed

lemma countBatchErrors_shift:
  "countBatchErrors cs tx ds e0 =
     (case countBatchErrors cs tx ds 0 of Inl err \<Rightarrow> Inl err | Inr m \<Rightarrow> Inr (e0 + m))"
proof -
  let ?step = "\<lambda>acc i. case acc of
               Inl e \<Rightarrow> Inl e
             | Inr ec \<Rightarrow>
                 (case symbolToBits (tx ! i) cs of
                    Inl e \<Rightarrow> Inl e
                  | Inr txBitString \<Rightarrow>
                      if i < length ds then
                        (case countBitErrorsFromStrings txBitString (ds ! i) of
                           Inl e \<Rightarrow> Inl e
                         | Inr n \<Rightarrow> Inr (ec + n))
                      else Inl TypeError)"
  have "foldl ?step (Inr e0) [0..<m] =
      (case foldl ?step (Inr 0) [0..<m] of Inl err \<Rightarrow> Inl err | Inr c \<Rightarrow> Inr (e0 + c))" for m
    by (induction m) (auto split: sum.splits)
  then show ?thesis by (simp add: countBatchErrors_def)
qed

lemma countBitErrorsFromStrings_le:
  "countBitErrorsFromStrings a b = Inr n \<Longrightarrow> n \<le> length a"
proof -
  assume r: "countBitErrorsFromStrings a b = Inr n"
  have "card {i. i < length a \<and> a ! i \<noteq> b ! i} \<le> card {i. i < length a}"
    by (rule card_mono) auto
  with r show ?thesis
    by (auto simp: countBitErrorsFromStrings_def count_loop_eq split: if_splits)
qed

lemma complexGaussianRandom_pos: "snd (complexGaussianRandom rnd v pos) = pos + 2"
  by (simp add: complexGaussianRandom_def gaussianRandomPair_def Math_random_def Let_def
      split: prod.splits)

lemma addNoise_pos: "addNoise rnd v symbols pos = (rx, pos') \<Longrightarrow> pos' = pos + 2 * length symbols"
proof (induction symbols arbitrary: pos rx pos')
  case Nil
  then show ?case by simp
next
  case (Cons s symbols)
  obtain noise pos1 where n: "complexGaussianRandom rnd v pos = (noise, pos1)"
    by (cases "complexGaussianRandom rnd v pos")
  obtain rest pos2 where r: "addNoise rnd v symbols pos1 = (rest, pos2)"
    by (cases "addNoise rnd v symbols pos1")
  from n complexGaussianRandom_pos [of rnd v pos] have "pos1 = pos + 2" by simp
  moreover from Cons.IH [OF r] have "pos2 = pos1 + 2 * length symbols" .
  moreover from Cons.prems n r have "pos' = pos2" by (simp add: Let_def)
  ultimately show ?case by simp
qed

lemma addAWGN_pos:
  "addAWGN rnd symbols ebN0Db scheme pos = (rx, pos') \<Longrightarrow> pos' = pos + 2 * length symbols"
  by (auto simp: addAWGN_def Let_def dest: addNoise_pos)

lemma countBatchErrors_bound:
  assumes "cs \<noteq> []" and "\<forall>l \<in> bits ` set cs. length l = k"
    and "length ds = length tx" and "set ds \<subseteq> bits ` set cs"
  shows "\<exists>n. countBatchErrors cs tx ds 0 = Inr n \<and> n \<le> length tx * k"
proof -
  let ?step = "\<lambda>acc i. case acc of
               Inl e \<Rightarrow> Inl e
             | Inr ec \<Rightarrow>
                 (case symbolToBits (tx ! i) cs of
                    Inl e \<Rightarrow> Inl e
                  | Inr txBitString \<Rightarrow>
                      if i < length ds then
                        (case countBitErrorsFromStrings txBitString (ds ! i) of
                           Inl e \<Rightarrow> Inl e
                         | Inr n \<Rightarrow> Inr (ec + n))
                      else Inl TypeError)"
  have step: "\<exists>n. ?step (Inr e') i = Inr n \<and> n \<le> e' + k" if "i < length ds" for e' i
  proof -
    from symbolToBits_label [OF assms(1), of "tx ! i"]
    obtain l where l: "l \<in> bits ` set cs" "symbolToBits (tx ! i) cs = Inr l" by blast
    from that assms(4) have "ds ! i \<in> bits ` set cs" by (meson nth_mem subsetD)
    with l(1) assms(2) have lk: "length l = k" "length (ds ! i) = k" by blast+
    then have "length l = length (ds ! i)" by simp
    then obtain c where c: "countBitErrorsFromStrings l (ds ! i) = Inr c"
      by (simp add: countBitErrorsFromStrings_def)
    from countBitErrorsFromStrings_le [OF c] lk(1) have "c \<le> k" by simp
    with that l(2) c show ?thesis by simp
  qed
  have "\<exists>n. foldl ?step (Inr 0) [0..<m] = Inr n \<and> n \<le> m * k" if "m \<le> length ds" for m
    using that
  proof (induction m)
    case 0
    show ?case by simp
  next
    case (Suc m)
    then obtain n where n: "foldl ?step (Inr 0) [0..<m] = Inr n" "n \<le> m * k" by auto
    from Suc.prems have "m < length ds" by simp
    from step [OF this, of n] obtain n' where "?step (Inr n) m = Inr n'" "n' \<le> n + k" by blast
    with n show ?case by simp
  qed
  from this [of "length tx"] assms(3) show ?thesis by (simp add: countBatchErrors_def)
qed

lemma runBatch_total:
  "\<exists>m. runBatch rnd scheme snr n pos
          = Some (Inr (m, pos + n * BITS_PER_SYMBOL scheme + 2 * n))
       \<and> m \<le> n * BITS_PER_SYMBOL scheme"
proof -
  let ?k = "BITS_PER_SYMBOL scheme" and ?cs = "generateConstellation scheme"
  obtain bs pos1 where g: "generateRandomBits rnd (int n * int ?k) pos = (bs, pos1)"
    by (cases "generateRandomBits rnd (int n * int ?k) pos")
  from generateRandomBits_props [OF g] have bits01: "set bs \<subseteq> {0, 1}"
    and lbs: "length bs = n * ?k" by (simp_all add: nat_mult_distrib)
  from g lbs have p1: "pos1 = pos + n * ?k" by (auto simp: generateRandomBits_def)
  from modulateBits_total [OF bits01, of scheme]
  obtain tx where m: "modulateBits bs ?cs = Some (Inr tx)" and ltx: "length tx = n"
    using BITS_PER_SYMBOL_pos [of scheme] by (auto simp: lbs)
  obtain rx pos2 where a: "addAWGN rnd tx snr scheme pos1 = (rx, pos2)"
    by (cases "addAWGN rnd tx snr scheme pos1")
  from addAWGN_pos [OF a] p1 ltx have p2: "pos2 = pos + n * ?k + 2 * n" by simp
  have ne: "?cs \<noteq> []" using generated_length [of scheme] by auto
  from demodulate_labels [OF ne, of rx]
  obtain ds where d: "demodulate rx ?cs = Inr ds" "length ds = length rx"
    "set ds \<subseteq> bits ` set ?cs" by blast
  have lab: "\<forall>l \<in> bits ` set ?cs. length l = ?k" using generated_label_props by blast
  from addAWGN_length [OF a] d(2) have "length ds = length tx" by simp
  from countBatchErrors_bound [OF ne lab this d(3)]
  obtain c where c: "countBatchErrors ?cs tx ds 0 = Inr c" "c \<le> length tx * ?k" by blast
  have "runBatch rnd scheme snr n pos = Some (Inr (c, pos2))"
    using g m a d(1) c(1) by (simp add: runBatch_def Let_def)
  with c(2) ltx p2 show ?thesis by simp
qed

lemma sweepLoop_step:
  assumes "bitCount0 < bitsTarget"
    and "n = min batchSymbols \<lceil>real_of_int (bitsTarget - bitCount0) / real (BITS_PER_SYMBOL scheme)\<rceil>"
    and "0 \<le> n"
  shows "sweepLoop rnd scheme snr bitsTarget batchSymbols (BITS_PER_SYMBOL scheme)
           (generateConstellation scheme) bitCount0 errorCount0 pos =
         (case runBatch rnd scheme snr (nat n) pos of
            None \<Rightarrow> None
          | Some (Inl e) \<Rightarrow> Some (Inl e)
          | Some (Inr (m, pos')) \<Rightarrow>
              sweepLoop rnd scheme snr bitsTarget batchSymbols (BITS_PER_SYMBOL scheme)
                (generateConstellation scheme) (bitCount0 + n * int (BITS_PER_SYMBOL scheme))
                (errorCount0 + m) pos')"
proof -
  let ?k = "BITS_PER_SYMBOL scheme" and ?cs = "generateConstellation scheme"
  have nn: "int (nat n) = n" using assms(3) by simp
  obtain bs pos1 where g: "generateRandomBits rnd (n * int ?k) pos = (bs, pos1)"
    by (cases "generateRandomBits rnd (n * int ?k) pos")
  have unfold: "sweepLoop rnd scheme snr bitsTarget batchSymbols ?k ?cs bitCount0 errorCount0 pos =
     (case modulateBits bs ?cs of
        None \<Rightarrow> None
      | Some (Inl e) \<Rightarrow> Some (Inl e)
      | Some (Inr txSymbols) \<Rightarrow>
          (let (rxSymbols, pos2) = addAWGN rnd txSymbols snr scheme pos1 in
           case demodulate rxSymbols ?cs of
             Inl e \<Rightarrow> Some (Inl e)
           | Inr decodedBitStrings \<Rightarrow>
               (case countBatchErrors ?cs txSymbols decodedBitStrings errorCount0 of
                  Inl e \<Rightarrow> Some (Inl e)
                | Inr ec \<Rightarrow>
                    sweepLoop rnd scheme snr bitsTarget batchSymbols ?k ?cs
                      (bitCount0 + n * int ?k) ec pos2)))"
    using assms(1) g
    by (subst sweepLoop.simps)
       (simp only: Let_def assms(2) [symmetric] if_True prod.case)
  show ?thesis
  proof (cases "modulateBits bs ?cs")
    case None
    with g show ?thesis unfolding unfold by (simp add: runBatch_def assms(3) Let_def)
  next
    case (Some r)
    show ?thesis
    proof (cases r)
      case (Inl e)
      with Some g show ?thesis unfolding unfold by (simp add: runBatch_def assms(3) Let_def)
    next
      case (Inr tx)
      obtain rx pos2 where a: "addAWGN rnd tx snr scheme pos1 = (rx, pos2)"
        by (cases "addAWGN rnd tx snr scheme pos1")
      show ?thesis
      proof (cases "demodulate rx ?cs")
        case (Inl e)
        with Some Inr g a show ?thesis unfolding unfold by (simp add: runBatch_def assms(3) Let_def)
      next
        case ds: (Inr ds)
        note sh = countBatchErrors_shift [of ?cs tx ds errorCount0]
        show ?thesis
        proof (cases "countBatchErrors ?cs tx ds 0")
          case (Inl e)
          with sh have "countBatchErrors ?cs tx ds errorCount0 = Inl e" by simp
          with Inl Some Inr g a ds show ?thesis unfolding unfold by (simp add: runBatch_def assms(3) Let_def)
        next
          case m: (Inr m)
          with sh have "countBatchErrors ?cs tx ds errorCount0 = Inr (errorCount0 + m)" by simp
          with m Some Inr g a ds show ?thesis unfolding unfold by (simp add: runBatch_def assms(3) Let_def)
        qed
      qed
    qed
  qed
qed

lemma ceiling_div_props:
  fixes r :: int and k :: nat
  assumes "0 < k"
  shows "r \<le> \<lceil>real_of_int r / real k\<rceil> * int k"
    and "\<lceil>real_of_int r / real k\<rceil> * int k < r + int k"
    and "0 < r \<Longrightarrow> 0 < \<lceil>real_of_int r / real k\<rceil>"
    and "\<lceil>real_of_int (r - n * int k) / real k\<rceil> = \<lceil>real_of_int r / real k\<rceil> - n"
proof -
  define c where "c = \<lceil>real_of_int r / real k\<rceil>"
  have kpos: "0 < real k" using assms by simp
  have "real_of_int r / real k \<le> real_of_int c" unfolding c_def by linarith
  then have "real_of_int r \<le> real_of_int c * real k" using kpos by (simp add: pos_divide_le_eq)
  then have "real_of_int r \<le> real_of_int (c * int k)" by simp
  then show "r \<le> \<lceil>real_of_int r / real k\<rceil> * int k"
    unfolding c_def [symmetric] by (simp only: of_int_le_iff)
  have "real_of_int c < real_of_int r / real k + 1" unfolding c_def by linarith
  then have "real_of_int c * real k < (real_of_int r / real k + 1) * real k"
    using kpos by (simp only: mult_less_cancel_right_pos)
  also have "\<dots> = real_of_int r + real k" using kpos by (simp add: field_simps)
  finally have "real_of_int (c * int k) < real_of_int (r + int k)" by simp
  then show "\<lceil>real_of_int r / real k\<rceil> * int k < r + int k"
    unfolding c_def [symmetric] by (simp only: of_int_less_iff)
  show "0 < \<lceil>real_of_int r / real k\<rceil>" if "0 < r"
  proof -
    have "0 < real_of_int r / real k" using that kpos by simp
    then show ?thesis by (simp add: less_ceiling_iff)
  qed
  have "real_of_int (r - n * int k) / real k = real_of_int r / real k - real_of_int n"
    using kpos by (simp add: field_simps)
  then show "\<lceil>real_of_int (r - n * int k) / real k\<rceil> = \<lceil>real_of_int r / real k\<rceil> - n"
    by (simp only: ceiling_diff_of_int)
qed

lemma sweepLoop_refines:
  assumes B: "0 < batchSymbols"
    and S: "S = nat \<lceil>real_of_int (bitsTarget - bitCount0) / real (BITS_PER_SYMBOL scheme)\<rceil>"
  shows "\<exists>e p. sweepBySymbols rnd scheme snr (nat batchSymbols) S pos = Some (Inr (e, p))
           \<and> sweepLoop rnd scheme snr bitsTarget batchSymbols (BITS_PER_SYMBOL scheme)
                 (generateConstellation scheme) bitCount0 errorCount0 pos
               = Some (Inr (bitCount0 + int (BITS_PER_SYMBOL scheme) * int S, errorCount0 + e, p))
           \<and> e \<le> BITS_PER_SYMBOL scheme * S
           \<and> p = pos + BITS_PER_SYMBOL scheme * S + 2 * S"
  using S
proof (induction S arbitrary: bitCount0 errorCount0 pos rule: less_induct)
  case (less S)
  let ?k = "BITS_PER_SYMBOL scheme" and ?cs = "generateConstellation scheme"
  have kpos: "0 < ?k" by (rule BITS_PER_SYMBOL_pos)
  define c where "c = \<lceil>real_of_int (bitsTarget - bitCount0) / real ?k\<rceil>"
  have Sc: "S = nat c" using less.prems by (simp add: c_def)
  show ?case
  proof (cases "bitCount0 < bitsTarget")
    case False
    then have "bitsTarget - bitCount0 \<le> 0" by simp
    then have "real_of_int (bitsTarget - bitCount0) / real ?k \<le> 0"
      using kpos by (simp add: divide_nonpos_pos)
    then have "c \<le> 0" unfolding c_def by (simp add: ceiling_le_iff)
    then have S0: "S = 0" using Sc by simp
    have "sweepLoop rnd scheme snr bitsTarget batchSymbols ?k ?cs bitCount0 errorCount0 pos
        = Some (Inr (bitCount0, errorCount0, pos))"
      using False by (subst sweepLoop.simps) simp
    moreover have "sweepBySymbols rnd scheme snr (nat batchSymbols) S pos = Some (Inr (0, pos))"
      using S0 by (subst sweepBySymbols.simps) simp
    ultimately show ?thesis using S0 by simp
  next
    case True
    then have rem: "0 < bitsTarget - bitCount0" by simp
    from ceiling_div_props(3) [OF kpos rem] have cpos: "0 < c" by (simp add: c_def)
    define n where "n = min batchSymbols c"
    have npos: "0 < n" "n \<le> c" using B cpos by (simp_all add: n_def)
    have nat_n: "nat n = min (nat batchSymbols) S" using B cpos by (simp add: n_def Sc min_def)
    from runBatch_total [of rnd scheme snr "nat n" pos]
    obtain m where rb: "runBatch rnd scheme snr (nat n) pos = Some (Inr (m, pos + nat n * ?k + 2 * nat n))"
      and mle: "m \<le> nat n * ?k" by blast
    define S' where "S' = S - nat n"
    have S'lt: "S' < S" using npos Sc by (simp add: S'_def)
    have Ssum: "S = nat n + S'" using npos Sc by (simp add: S'_def)
    have "\<lceil>real_of_int (bitsTarget - (bitCount0 + n * int ?k)) / real ?k\<rceil> = c - n"
      using ceiling_div_props(4) [OF kpos, of "bitsTarget - bitCount0" n]
      by (simp add: c_def algebra_simps)
    then have S'eq: "S' = nat \<lceil>real_of_int (bitsTarget - (bitCount0 + n * int ?k)) / real ?k\<rceil>"
      using npos Sc by (simp add: S'_def nat_diff_distrib)
    from less.IH [OF S'lt S'eq, where ?errorCount0.0 = "errorCount0 + m"
        and pos = "pos + nat n * ?k + 2 * nat n"]
    obtain e p where
      sp: "sweepBySymbols rnd scheme snr (nat batchSymbols) S' (pos + nat n * ?k + 2 * nat n)
             = Some (Inr (e, p))"
      and lp: "sweepLoop rnd scheme snr bitsTarget batchSymbols ?k ?cs (bitCount0 + n * int ?k)
                 (errorCount0 + m) (pos + nat n * ?k + 2 * nat n)
               = Some (Inr (bitCount0 + n * int ?k + int ?k * int S', errorCount0 + m + e, p))"
      and ele: "e \<le> ?k * S'"
      and peq: "p = pos + nat n * ?k + 2 * nat n + ?k * S' + 2 * S'"
      by blast
    have S_ne: "S \<noteq> 0" "nat batchSymbols \<noteq> 0" using Ssum npos B by simp_all
    have spec: "sweepBySymbols rnd scheme snr (nat batchSymbols) S pos = Some (Inr (m + e, p))"
      using S_ne rb sp
      by (subst sweepBySymbols.simps) (simp add: nat_n [symmetric] S'_def [symmetric])
    have "n = min batchSymbols \<lceil>real_of_int (bitsTarget - bitCount0) / real ?k\<rceil>"
      by (simp add: n_def c_def)
    from sweepLoop_step [OF True this, of rnd snr errorCount0 pos] npos(1) rb lp
    have loop: "sweepLoop rnd scheme snr bitsTarget batchSymbols ?k ?cs bitCount0 errorCount0 pos
        = Some (Inr (bitCount0 + n * int ?k + int ?k * int S', errorCount0 + m + e, p))"
      by simp
    have bc: "bitCount0 + n * int ?k + int ?k * int S' = bitCount0 + int ?k * int S"
      using npos(1) by (simp add: Ssum algebra_simps)
    have "m + e \<le> ?k * S" using mle ele by (simp add: Ssum algebra_simps)
    moreover have "p = pos + ?k * S + 2 * S" using peq by (simp add: Ssum algebra_simps)
    ultimately show ?thesis using spec loop bc by (intro exI [of _ "m + e"] exI [of _ p]) simp
  qed
qed

text \<open>
  Claim C7. For every scheme, every SNR, every sequence of random draws, every positive
  \<open>bitsTarget\<close> and every positive \<open>batchSymbols\<close>, \<open>simulateBerAtSnr\<close> returns a sweep
  point (the loop ends, and no step fails). Its bit count is at least \<open>bitsTarget\<close> and
  less than \<open>bitsTarget\<close> plus the number \<open>k\<close> of bits per symbol, and it is a whole
  number of symbols: \<open>k\<close> times \<open>bitsTarget / k\<close> rounded up. Its error count is the
  number of bit errors of the batches of at most \<open>batchSymbols\<close> symbols that make up
  these symbols, run one after the other on the draws; the draws used are one per bit and
  two per symbol. Its simulated error rate is the error count divided by the bit count;
  its theoretical error rate is \<open>theoreticalBER\<close> of the scheme at the SNR.
\<close>

theorem simulateBerAtSnr_result:
  assumes "0 < bitsTarget" and "0 < batchSymbols"
  shows "\<exists>sp pos'.
           simulateBerAtSnr rnd scheme snr bitsTarget batchSymbols pos = Some (Inr (sp, pos'))
           \<and> bitsTarget \<le> bitCount sp
           \<and> bitCount sp < bitsTarget + int (BITS_PER_SYMBOL scheme)
           \<and> bitCount sp
               = int (BITS_PER_SYMBOL scheme)
                 * \<lceil>real_of_int bitsTarget / real (BITS_PER_SYMBOL scheme)\<rceil>
           \<and> simulatedBER sp = real (errorCount sp) / real_of_int (bitCount sp)
           \<and> theoreticalBER' sp = theoreticalBER scheme snr
           \<and> snrDb sp = snr
           \<and> sweepBySymbols rnd scheme snr (nat batchSymbols)
                 (nat (bitCount sp) div BITS_PER_SYMBOL scheme) pos
               = Some (Inr (errorCount sp, pos'))
           \<and> int (errorCount sp) \<le> bitCount sp
           \<and> pos' = pos + nat (bitCount sp) + 2 * (nat (bitCount sp) div BITS_PER_SYMBOL scheme)"
proof -
  let ?k = "BITS_PER_SYMBOL scheme"
  have kpos: "0 < ?k" by (rule BITS_PER_SYMBOL_pos)
  define c where "c = \<lceil>real_of_int bitsTarget / real ?k\<rceil>"
  define S where "S = nat c"
  have cpos: "0 < c" using ceiling_div_props(3) [OF kpos assms(1)] by (simp add: c_def)
  have Sc: "int S = c" using cpos by (simp add: S_def)
  have S0: "S = nat \<lceil>real_of_int (bitsTarget - 0) / real ?k\<rceil>" by (simp add: S_def c_def)
  from sweepLoop_refines [OF assms(2) S0, where rnd = rnd and snr = snr
      and ?errorCount0.0 = 0 and pos = pos]
  obtain e p where
    spec: "sweepBySymbols rnd scheme snr (nat batchSymbols) S pos = Some (Inr (e, p))"
    and loop: "sweepLoop rnd scheme snr bitsTarget batchSymbols ?k (generateConstellation scheme)
                 0 0 pos = Some (Inr (int ?k * int S, e, p))"
    and ele: "e \<le> ?k * S"
    and peq: "p = pos + ?k * S + 2 * S"
    by auto
  define bc where "bc = int ?k * int S"
  have bc_c: "bc = int ?k * c" by (simp add: bc_def Sc)
  have lo: "bitsTarget \<le> bc"
    using ceiling_div_props(1) [OF kpos, of bitsTarget] by (simp add: bc_c c_def mult.commute)
  have hi: "bc < bitsTarget + int ?k"
    using ceiling_div_props(2) [OF kpos, of bitsTarget] by (simp add: bc_c c_def mult.commute)
  have bcpos: "0 < bc" using lo assms(1) by simp
  have nbc: "nat bc = ?k * S" by (simp add: bc_def nat_mult_distrib)
  then have dv: "nat bc div ?k = S" using kpos by simp
  let ?sp = "\<lparr>snrDb = snr, simulatedBER = real e / real_of_int bc,
              theoreticalBER' = theoreticalBER scheme snr, bitCount = bc, errorCount = e\<rparr>"
  have res: "simulateBerAtSnr rnd scheme snr bitsTarget batchSymbols pos = Some (Inr (?sp, p))"
    using loop bcpos by (simp add: simulateBerAtSnr_def Let_def bc_def [symmetric])
  have "int e \<le> bc" using ele nbc bcpos by linarith
  with res lo hi bc_c spec peq nbc dv show ?thesis
    by (intro exI [of _ ?sp] exI [of _ p]) (simp add: c_def)
qed

theorem simulateBerAtSnr_result_witness:
  "(0::int) < 1000 \<and> (0::int) < 400
   \<and> (\<exists>sp pos'. simulateBerAtSnr (\<lambda>i. 1 / 4) QAM64 10 1000 400 0 = Some (Inr (sp, pos'))
         \<and> bitCount sp = 1002
         \<and> simulatedBER sp = real (errorCount sp) / real_of_int (bitCount sp)
         \<and> theoreticalBER' sp = theoreticalBER QAM64 10
         \<and> sweepBySymbols (\<lambda>i. 1 / 4) QAM64 10 400 167 0 = Some (Inr (errorCount sp, pos'))
         \<and> pos' = 1336)"
proof -
  have h: "(0::int) < 1000" "(0::int) < 400" by simp_all
  from simulateBerAtSnr_result [OF h, of "\<lambda>i. 1 / 4" QAM64 10 0] h show ?thesis
    by (auto simp: nat_mult_distrib)
qed

section \<open>The examples of the source's documentation, evaluated\<close>

text \<open>
  The comments of \<open>modulateBits\<close> and of the two counting functions give worked examples;
  the definitions above compute the same values. A bit array with an element that is not
  a bit reaches the "Invalid bit pattern" branch.
\<close>

lemma countBitErrors_example: "countBitErrors [0, 1, 1, 0, 1, 0] [0, 1, 0, 0, 1, 1] = Inr 2"
  by code_simp

lemma countBitErrorsFromStrings_example: "countBitErrorsFromStrings ''0110'' ''0100'' = Inr 1"
  by code_simp

lemma bitMapOf_QPSK:
  "bitMapOf generateQPSK =
     [''00'' \<mapsto> \<lparr>I = 1 / sqrt 2, Q = 1 / sqrt 2, bits = ''00''\<rparr>,
      ''01'' \<mapsto> \<lparr>I = - (1 / sqrt 2), Q = 1 / sqrt 2, bits = ''01''\<rparr>,
      ''11'' \<mapsto> \<lparr>I = - (1 / sqrt 2), Q = - (1 / sqrt 2), bits = ''11''\<rparr>,
      ''10'' \<mapsto> \<lparr>I = 1 / sqrt 2, Q = - (1 / sqrt 2), bits = ''10''\<rparr>]"
  by (simp add: bitMapOf_def generateQPSK_def Let_def)

lemma modulateLoop_turn:
  "i + k \<le> length bs \<Longrightarrow>
   modulateLoop k bitMap bs i acc =
     (case bitMap (join (slice bs i (i + k))) of
        None \<Rightarrow> Some (Inl (InvalidState (''Invalid bit pattern: '' @ join (slice bs i (i + k)))))
      | Some point \<Rightarrow> modulateLoop k bitMap bs (i + k) (acc @ [\<lparr>I = I point, Q = Q point\<rparr>]))"
  by (subst modulateLoop.simps) (simp add: Let_def)

lemma modulateBits_example:
  "modulateBits [0, 1, 1, 0, 0, 0, 1, 1] (generateConstellation QPSK) =
     Some (Inr [\<lparr>I = - (1 / sqrt 2), Q = 1 / sqrt 2\<rparr>, \<lparr>I = 1 / sqrt 2, Q = - (1 / sqrt 2)\<rparr>,
                \<lparr>I = 1 / sqrt 2, Q = 1 / sqrt 2\<rparr>, \<lparr>I = - (1 / sqrt 2), Q = - (1 / sqrt 2)\<rparr>])"
  by (simp add: modulateBits_def generateQPSK_def bitMapOf_def Let_def
      modulateLoop_turn modulateLoop_stop slice_def join_def)

lemma modulateBits_invalid_example:
  "modulateBits [2] (generateConstellation BPSK) = Some (Inl (InvalidState ''Invalid bit pattern: 2''))"
  by (simp add: modulateBits_def generateBPSK_def bitMapOf_def Let_def
      modulateLoop_turn modulateLoop_stop slice_def join_def)

lemma demodulate_example:
  "demodulate [\<lparr>I = 0.9, Q = 0.2\<rparr>, \<lparr>I = -0.1, Q = 5\<rparr>] (generateConstellation BPSK) = Inr [''0'', ''1'']"
  by (simp add: demodulate_def decide_def generateBPSK_def complexDistanceSquared_def Let_def)

end
